theory Spec2Isabelle
  imports Complex_Main "HOL-Library.AList"
begin

section \<open>The toroidal game map of the Halite bot (hlt/game_map.py)\<close>

text \<open>
  The embedding follows \<^verbatim>\<open>Halite-Bot-v13/hlt/game_map.py\<close>. Python integers are
  \<open>int\<close>. Every exception the modelled code can raise is a value of \<open>error\<close>, and a
  function that can raise returns \<open>error + 'a\<close> with \<open>Inl\<close> for the exception.
  Python floats (the costs of \<^verbatim>\<open>dijkstra_map\<close>, the halves in \<^verbatim>\<open>get_unsafe_moves\<close>)
  are idealised as rationals; only statements that do not depend on rounding are made
  about them.
\<close>

datatype error = ZeroDivisionError | IndexError | KeyError

subsection \<open>Positions and directions (hlt/positionals.py)\<close>

text \<open>
  \<^verbatim>\<open>hlt/positionals.py\<close> is imported by the map but is not part of the sources at hand.
  A position is a pair of integer coordinates with component-wise arithmetic.
\<close>

datatype position = Position (pos_x: int) (pos_y: int)

datatype direction = North | South | East | West | Still

text \<open>
  Modelled from the spec: \<^verbatim>\<open>Position.__sub__\<close> and \<^verbatim>\<open>Position.__abs__\<close> of the absent
  \<^verbatim>\<open>hlt/positionals.py\<close>; the spec gives a coordinate component-wise arithmetic and a
  component-wise absolute delta.
\<close>

definition pos_add :: "position \<Rightarrow> position \<Rightarrow> position" where
  "pos_add a b = Position (pos_x a + pos_x b) (pos_y a + pos_y b)"

definition pos_sub :: "position \<Rightarrow> position \<Rightarrow> position" where
  "pos_sub a b = Position (pos_x a - pos_x b) (pos_y a - pos_y b)"

definition pos_abs :: "position \<Rightarrow> position" where
  "pos_abs a = Position \<bar>pos_x a\<bar> \<bar>pos_y a\<bar>"

text \<open>
  Modelled from the spec: the direction vectors, \<^verbatim>\<open>Direction.get_all_cardinals\<close>,
  \<^verbatim>\<open>Direction.invert\<close>, \<^verbatim>\<open>Position.directional_offset\<close> and
  \<^verbatim>\<open>Position.get_surrounding_cardinals\<close> of the absent \<^verbatim>\<open>hlt/positionals.py\<close>. The spec
  names the four cardinal directions North, South, East, West in a fixed enumeration
  order with "stay" as the fifth option, and inverts a bearing to its opposite. The
  vectors agree with \<^verbatim>\<open>_get_target_direction\<close> below, where South is towards greater y
  and East towards greater x.
\<close>

fun direction_vec :: "direction \<Rightarrow> position" where
  "direction_vec North = Position 0 (- 1)"
| "direction_vec South = Position 0 1"
| "direction_vec East = Position 1 0"
| "direction_vec West = Position (- 1) 0"
| "direction_vec Still = Position 0 0"

definition get_all_cardinals :: "direction list" where
  "get_all_cardinals = [North, South, East, West]"

fun invert :: "direction \<Rightarrow> direction" where
  "invert North = South"
| "invert South = North"
| "invert East = West"
| "invert West = East"
| "invert Still = Still"

definition directional_offset :: "position \<Rightarrow> direction \<Rightarrow> position" where
  "directional_offset p d = pos_add p (direction_vec d)"

definition get_surrounding_cardinals :: "position \<Rightarrow> position list" where
  "get_surrounding_cardinals p = map (directional_offset p) get_all_cardinals"

subsection \<open>Cells and the map\<close>

text \<open>
  A \<^verbatim>\<open>MapCell\<close>. The occupant and the structure are references to entities of which
  the map reads only the presence and, for a structure, its \<^verbatim>\<open>id\<close>: \<open>ship\<close> holds
  the id of the ship on the cell and \<open>cell_structure\<close> the id of the structure.
\<close>

record map_cell =
  cell_position :: position
  halite_amount :: int
  ship :: "int option"
  cell_structure :: "int option"
  potential :: int

definition MapCell :: "position \<Rightarrow> int \<Rightarrow> map_cell" where
  "MapCell p h = \<lparr>cell_position = p, halite_amount = h, ship = None,
     cell_structure = None, potential = 0\<rparr>"

definition is_occupied :: "map_cell \<Rightarrow> bool" where
  "is_occupied c = (ship c \<noteq> None)"

text \<open>\<^verbatim>\<open>MapCell.mark_unsafe\<close> records the ship on the cell.\<close>

definition mark_unsafe :: "map_cell \<Rightarrow> int \<Rightarrow> map_cell" where
  "mark_unsafe c s = c\<lparr>ship := Some s\<rparr>"

record game_map =
  width :: int
  height :: int
  cells :: "map_cell list list"

text \<open>Python list indexing: a negative index counts from the end, anything else out
  of range raises.\<close>

definition py_index :: "'a list \<Rightarrow> int \<Rightarrow> error + 'a" where
  "py_index xs i =
     (if 0 \<le> i \<and> i < int (length xs) then Inr (xs ! nat i)
      else if - int (length xs) \<le> i \<and> i < 0 then Inr (xs ! nat (int (length xs) + i))
      else Inl IndexError)"

text \<open>\<^verbatim>\<open>x % 0\<close> raises in Python; otherwise \<^verbatim>\<open>%\<close> is the floored remainder, as
  \<open>mod\<close> on \<open>int\<close>.\<close>

definition normalize :: "game_map \<Rightarrow> position \<Rightarrow> error + position" where
  "normalize m p =
     (if width m = 0 \<or> height m = 0 then Inl ZeroDivisionError
      else Inr (Position (pos_x p mod width m) (pos_y p mod height m)))"

text \<open>\<^verbatim>\<open>GameMap.__getitem__\<close> at a position.\<close>

definition get_cell :: "game_map \<Rightarrow> position \<Rightarrow> error + map_cell" where
  "get_cell m location =
     (case normalize m location of
        Inl e \<Rightarrow> Inl e
      | Inr l \<Rightarrow>
          (case py_index (cells m) (pos_y l) of
             Inl e \<Rightarrow> Inl e
           | Inr row \<Rightarrow> py_index row (pos_x l)))"

text \<open>The map that \<^verbatim>\<open>_generate\<close> builds from the rows of amounts the engine sends.\<close>

definition generate_row :: "int \<Rightarrow> int list \<Rightarrow> map_cell list" where
  "generate_row y_position amounts =
     map (\<lambda>(x_position, a). MapCell (Position (int x_position) y_position) a)
       (enumerate 0 amounts)"

definition generate :: "int \<Rightarrow> int \<Rightarrow> int list list \<Rightarrow> game_map" where
  "generate map_width map_height rows =
     \<lparr>width = map_width, height = map_height,
      cells = map (\<lambda>(y_position, r). generate_row (int y_position) r) (enumerate 0 rows)\<rparr>"

text \<open>A map is well formed when its extents are positive and the cell array has them.\<close>

definition wf_map :: "game_map \<Rightarrow> bool" where
  "wf_map m = (0 < width m \<and> 0 < height m \<and> int (length (cells m)) = height m
     \<and> list_all (\<lambda>row. int (length row) = width m) (cells m))"

definition in_grid :: "game_map \<Rightarrow> position \<Rightarrow> bool" where
  "in_grid m p = (0 \<le> pos_x p \<and> pos_x p < width m \<and> 0 \<le> pos_y p \<and> pos_y p < height m)"

text \<open>The map \<^verbatim>\<open>_generate\<close> builds when every cell holds the same amount.\<close>

definition uniform_map :: "int \<Rightarrow> int \<Rightarrow> int \<Rightarrow> game_map" where
  "uniform_map w h v = generate w h (replicate (nat h) (replicate (nat w) v))"

subsection \<open>Distance and bearings\<close>

definition calculate_distance :: "game_map \<Rightarrow> position \<Rightarrow> position \<Rightarrow> error + int" where
  "calculate_distance m source target =
     (case normalize m source of
        Inl e \<Rightarrow> Inl e
      | Inr s \<Rightarrow>
          (case normalize m target of
             Inl e \<Rightarrow> Inl e
           | Inr t \<Rightarrow>
               (let resulting_position = pos_abs (pos_sub s t)
                in Inr (min (pos_x resulting_position) (width m - pos_x resulting_position)
                      + min (pos_y resulting_position) (height m - pos_y resulting_position)))))"

text \<open>The toroidal Manhattan metric in the words of the specification: normalise both
  points, take the component-wise absolute deltas, and on each axis the shorter of the
  two ways around.\<close>

definition toroidal_distance :: "int \<Rightarrow> int \<Rightarrow> position \<Rightarrow> position \<Rightarrow> int" where
  "toroidal_distance w h a b =
     (let dx = \<bar>pos_x a mod w - pos_x b mod w\<bar>; dy = \<bar>pos_y a mod h - pos_y b mod h\<bar>
      in min dx (w - dx) + min dy (h - dy))"

definition get_target_direction ::
  "position \<Rightarrow> position \<Rightarrow> direction option \<times> direction option" where
  "get_target_direction source target =
     (if pos_y target > pos_y source then Some South
      else if pos_y target < pos_y source then Some North else None,
      if pos_x target > pos_x source then Some East
      else if pos_x target < pos_x source then Some West else None)"

text \<open>
  \<^verbatim>\<open>get_unsafe_moves\<close>. The list it builds holds what \<^verbatim>\<open>_get_target_direction\<close>
  returned, which may be \<^verbatim>\<open>None\<close>; inverting \<^verbatim>\<open>None\<close> is an error. The comparison
  \<^verbatim>\<open>distance.x < self.width / 2\<close> is between an integer and half an integer.
\<close>

definition unsafe_move ::
  "int \<Rightarrow> int \<Rightarrow> direction option \<Rightarrow> error + direction option" where
  "unsafe_move delta extent cardinality =
     (if (of_int delta :: rat) < of_int extent / 2 then Inr cardinality
      else (case cardinality of None \<Rightarrow> Inl IndexError | Some d \<Rightarrow> Inr (Some (invert d))))"

definition get_unsafe_moves ::
  "game_map \<Rightarrow> position \<Rightarrow> position \<Rightarrow> error + direction option list" where
  "get_unsafe_moves m source destination =
     (case normalize m source of
        Inl e \<Rightarrow> Inl e
      | Inr s \<Rightarrow>
          (case normalize m destination of
             Inl e \<Rightarrow> Inl e
           | Inr t \<Rightarrow>
               (let distance = pos_abs (pos_sub t s);
                    (y_cardinality, x_cardinality) = get_target_direction s t
                in case (if pos_x distance \<noteq> 0
                         then map_sum id (\<lambda>d. [d]) (unsafe_move (pos_x distance) (width m) x_cardinality)
                         else Inr []) of
                     Inl e \<Rightarrow> Inl e
                   | Inr possible_moves \<Rightarrow>
                       (if pos_y distance \<noteq> 0
                        then map_sum id (\<lambda>d. possible_moves @ [d])
                               (unsafe_move (pos_y distance) (height m) y_cardinality)
                        else Inr possible_moves))))"

subsection \<open>The priority queue (heapq)\<close>

text \<open>
  The frontier is a Python list used through \<^verbatim>\<open>heappush\<close> and \<^verbatim>\<open>heappop\<close>. Its layout
  as a binary heap is not observable by the map; it is modelled by its contract: the
  queue is the list of the entries pushed and not yet popped, and \<^verbatim>\<open>heappop\<close> removes
  and returns a least entry. Entries are pairs \<^verbatim>\<open>(priority, position)\<close> compared as
  Python tuples: by priority first and, at equal priority and distinct positions, by the
  order of \<^verbatim>\<open>Position\<close>. That order belongs to the absent \<^verbatim>\<open>hlt/positionals.py\<close> and is
  a parameter \<open>pos_lt\<close> of every function that uses the queue.
\<close>

definition tuple_lt ::
  "(position \<Rightarrow> position \<Rightarrow> bool) \<Rightarrow> ('c::linorder) \<times> position \<Rightarrow> 'c \<times> position \<Rightarrow> bool" where
  "tuple_lt pos_lt a b =
     (if fst a \<noteq> fst b then fst a < fst b
      else if snd a \<noteq> snd b then pos_lt (snd a) (snd b)
      else False)"

fun min_entry :: "('a \<Rightarrow> 'a \<Rightarrow> bool) \<Rightarrow> 'a \<Rightarrow> 'a list \<Rightarrow> 'a" where
  "min_entry lt best [] = best"
| "min_entry lt best (x # xs) = min_entry lt (if lt x best then x else best) xs"

text \<open>Where the queue is run on a concrete input below, the positions are ordered by
  their x coordinate and then by their y coordinate. No result depends on that choice:
  every theorem about the queue holds for each \<open>pos_lt\<close>.\<close>

definition lex_lt :: "position \<Rightarrow> position \<Rightarrow> bool" where
  "lex_lt a b = (pos_x a < pos_x b \<or> (pos_x a = pos_x b \<and> pos_y a < pos_y b))"

definition heappush :: "'a list \<Rightarrow> 'a \<Rightarrow> 'a list" where
  "heappush q x = q @ [x]"

definition heappop :: "('a \<Rightarrow> 'a \<Rightarrow> bool) \<Rightarrow> 'a list \<Rightarrow> error + 'a \<times> 'a list" where
  "heappop lt q =
     (case q of
        [] \<Rightarrow> Inl IndexError
      | x # xs \<Rightarrow> (let least = min_entry lt x xs in Inr (least, remove1 least q)))"

subsection \<open>The potential field\<close>

text \<open>The loop \<^verbatim>\<open>for neighbour in position.get_surrounding_cardinals()\<close> of
  \<^verbatim>\<open>_calculate_potential_cell\<close>, which pushes every normalised neighbour.\<close>

fun push_neighbours ::
  "game_map \<Rightarrow> int \<Rightarrow> position list \<Rightarrow> (int \<times> position) list \<Rightarrow> error + (int \<times> position) list" where
  "push_neighbours m new_distance [] q = Inr q"
| "push_neighbours m new_distance (neighbour # rest) q =
     (case normalize m neighbour of
        Inl e \<Rightarrow> Inl e
      | Inr n \<Rightarrow> push_neighbours m new_distance rest (heappush q (new_distance, n)))"

text \<open>
  One iteration of the \<^verbatim>\<open>while q\<close> loop of \<^verbatim>\<open>_calculate_potential_cell\<close> on the state
  \<open>(q, seen, potential)\<close>; \<open>seen\<close> is the dictionary, in insertion order. The
  contribution of the cell and the pushes of its neighbours are both inside the branch
  \<^verbatim>\<open>if self[position].ship is None\<close>.
\<close>

type_synonym potential_state = "(int \<times> position) list \<times> (position \<times> int) list \<times> int"

definition potential_step ::
  "game_map \<Rightarrow> (position \<Rightarrow> position \<Rightarrow> bool) \<Rightarrow> int \<Rightarrow> potential_state \<Rightarrow> error + potential_state" where
  "potential_step m pos_lt ident st =
     (case st of (q, seen, potential_sum) \<Rightarrow>
        (case heappop (tuple_lt pos_lt) q of
           Inl e \<Rightarrow> Inl e
         | Inr ((distance, position), q1) \<Rightarrow>
             if map_of seen position \<noteq> None then Inr (q1, seen, potential_sum)
             else
               (let seen1 = AList.update position distance seen
                in case get_cell m position of
                     Inl e \<Rightarrow> Inl e
                   | Inr c \<Rightarrow>
                       if ship c = None then
                         (let halite_cell = halite_amount c;
                              structure_cell = cell_structure c;
                              range_factor = (width m + height m) - distance;
                              potential1 =
                                (if structure_cell \<noteq> None \<and> structure_cell = Some ident
                                 then potential_sum + (- 1000) * range_factor
                                 else potential_sum + halite_cell * range_factor * range_factor);
                              new_distance = distance + 1
                          in case push_neighbours m new_distance
                                    (get_surrounding_cardinals position) q1 of
                               Inl e \<Rightarrow> Inl e
                             | Inr q2 \<Rightarrow> Inr (q2, seen1, potential1))
                       else Inr (q1, seen1, potential_sum))))"

text \<open>The positions a frontier can ever hold besides those it holds already: the
  normalised ones.\<close>

definition grid_positions :: "game_map \<Rightarrow> position set" where
  "grid_positions m =
     (\<lambda>(x, y). Position x y)
       ` ({min 0 (width m) .. max 0 (width m)} \<times> {min 0 (height m) .. max 0 (height m)})"

definition unseen :: "game_map \<Rightarrow> ('c \<times> position) list \<Rightarrow> (position \<times> 'v) list \<Rightarrow> position set" where
  "unseen m q seen = {p \<in> grid_positions m \<union> snd ` set q. map_of seen p = None}"

function potential_loop ::
  "game_map \<Rightarrow> (position \<Rightarrow> position \<Rightarrow> bool) \<Rightarrow> int \<Rightarrow> potential_state \<Rightarrow> error + int" where
  "potential_loop m pos_lt ident (q, seen, potential_sum) =
     (if q = [] then Inr potential_sum
      else (case potential_step m pos_lt ident (q, seen, potential_sum) of
              Inl e \<Rightarrow> Inl e
            | Inr st \<Rightarrow> potential_loop m pos_lt ident st))"
  by pat_completeness auto

text \<open>Termination of the loop: each iteration either drops an entry or finalises a
  position not seen before, and only normalised positions are ever pushed.\<close>

lemma min_entry_in: "min_entry lt b xs \<in> set (b # xs)"
  by (induction xs arbitrary: b) auto

lemma heappop_Inr:
  "heappop lt q = Inr (e, q1) \<Longrightarrow> e \<in> set q \<and> q1 = remove1 e q"
  using min_entry_in [of lt "hd q" "tl q"] by (cases q) (auto simp: heappop_def Let_def)

lemma heappop_nonempty: "q \<noteq> [] \<Longrightarrow> \<exists>e. heappop lt q = Inr (e, remove1 e q) \<and> e \<in> set q"
  using min_entry_in [of lt "hd q" "tl q"] by (cases q) (auto simp: heappop_def Let_def)

lemma push_neighbours_Inr:
  "push_neighbours m d ns q = Inr q2 \<Longrightarrow>
     \<exists>ps. q2 = q @ map (Pair d) ps \<and> length ps = length ns \<and> map (normalize m) ns = map Inr ps"
proof (induction ns arbitrary: q)
  case Nil
  then show ?case by simp
next
  case (Cons n ns)
  then obtain p where p: "normalize m n = Inr p"
    and rec: "push_neighbours m d ns (heappush q (d, p)) = Inr q2"
    by (auto split: sum.splits)
  from Cons.IH [OF rec] obtain ps where
    "q2 = heappush q (d, p) @ map (Pair d) ps" "length ps = length ns"
    "map (normalize m) ns = map Inr ps" by blast
  then show ?case using p
    by (intro exI [of _ "p # ps"]) (simp add: heappush_def)
qed

lemma normalize_in_grid:
  "normalize m p = Inr n \<Longrightarrow> n \<in> grid_positions m"
proof -
  assume a: "normalize m p = Inr n"
  then have w: "width m \<noteq> 0" and h: "height m \<noteq> 0"
    and n: "n = Position (pos_x p mod width m) (pos_y p mod height m)"
    by (auto simp: normalize_def split: if_splits)
  have x: "pos_x p mod width m \<in> {min 0 (width m) .. max 0 (width m)}"
    using w by (cases "0 < width m") (auto simp: min_def max_def less_imp_le)
  have y: "pos_y p mod height m \<in> {min 0 (height m) .. max 0 (height m)}"
    using h by (cases "0 < height m") (auto simp: min_def max_def less_imp_le)
  show ?thesis unfolding grid_positions_def n using x y by (auto simp: image_iff)
qed

lemma finite_grid_positions: "finite (grid_positions m)"
  by (simp add: grid_positions_def)

lemma finite_unseen: "finite (unseen m q seen)"
  by (simp add: unseen_def finite_grid_positions)



lemma unseen_mono:
  "snd ` set q' \<subseteq> snd ` set q \<union> grid_positions m \<Longrightarrow> unseen m q' seen \<subseteq> unseen m q seen"
  by (auto simp: unseen_def)

lemma card_unseen_mono:
  "snd ` set q' \<subseteq> snd ` set q \<union> grid_positions m \<Longrightarrow>
     card (unseen m q' seen) \<le> card (unseen m q seen)"
  by (intro card_mono finite_unseen unseen_mono)

lemma card_unseen_less:
  assumes sub: "snd ` set q' \<subseteq> snd ` set q \<union> grid_positions m"
    and upd: "map_of seen' = (map_of seen)(pos \<mapsto> d)"
    and pos: "pos \<in> snd ` set q" and new: "map_of seen pos = None"
  shows "card (unseen m q' seen') < card (unseen m q seen)"
proof -
  have "unseen m q' seen' \<subseteq> unseen m q seen - {pos}"
    using sub upd by (auto simp: unseen_def split: if_splits)
  moreover have "pos \<in> unseen m q seen"
    using pos new by (simp add: unseen_def)
  ultimately have "unseen m q' seen' \<subset> unseen m q seen" by blast
  then show ?thesis by (intro psubset_card_mono finite_unseen)
qed

lemma potential_step_pop:
  assumes "heappop (tuple_lt pos_lt) q = Inr ((d, pos), q1)"
  shows "potential_step m pos_lt ident (q, seen, p) =
     (if map_of seen pos \<noteq> None then Inr (q1, seen, p)
      else case get_cell m pos of
             Inl e \<Rightarrow> Inl e
           | Inr c \<Rightarrow>
               if ship c = None then
                 (case push_neighbours m (d + 1) (get_surrounding_cardinals pos) q1 of
                    Inl e \<Rightarrow> Inl e
                  | Inr q2 \<Rightarrow>
                      Inr (q2, AList.update pos d seen,
                        if cell_structure c \<noteq> None \<and> cell_structure c = Some ident
                        then p + (- 1000) * ((width m + height m) - d)
                        else p + halite_amount c * ((width m + height m) - d)
                               * ((width m + height m) - d)))
               else Inr (q1, AList.update pos d seen, p))"
  using assms by (cases "get_cell m pos") (simp_all add: potential_step_def Let_def)

lemma potential_step_Inr_pop:
  assumes "potential_step m pos_lt ident (q, seen, p) = Inr st"
  shows "\<exists>d pos. heappop (tuple_lt pos_lt) q = Inr ((d, pos), remove1 (d, pos) q) \<and> (d, pos) \<in> set q"
proof (cases q)
  case Nil
  with assms show ?thesis by (simp add: potential_step_def heappop_def)
next
  case (Cons x xs)
  then have "q \<noteq> []" by simp
  from heappop_nonempty [OF this, of "tuple_lt pos_lt"] obtain e where
    "heappop (tuple_lt pos_lt) q = Inr (e, remove1 e q)" "e \<in> set q" by blast
  then show ?thesis by (cases e) auto
qed


lemma potential_step_cases:
  assumes "potential_step m pos_lt ident (q, seen, p) = Inr (q', seen', p')"
  obtains (skip) d pos where "(d, pos) \<in> set q" "map_of seen pos \<noteq> None"
      "q' = remove1 (d, pos) q" "seen' = seen" "p' = p"
  | (occupied) d pos c where "(d, pos) \<in> set q" "map_of seen pos = None"
      "get_cell m pos = Inr c" "ship c \<noteq> None"
      "q' = remove1 (d, pos) q" "seen' = AList.update pos d seen" "p' = p"
  | (expand) d pos c ps where "(d, pos) \<in> set q" "map_of seen pos = None"
      "get_cell m pos = Inr c" "ship c = None"
      "map (normalize m) (get_surrounding_cardinals pos) = map Inr ps"
      "q' = remove1 (d, pos) q @ map (Pair (d + 1)) ps"
      "seen' = AList.update pos d seen"
      "p' = (if cell_structure c = Some ident
             then p + (- 1000) * ((width m + height m) - d)
             else p + halite_amount c * ((width m + height m) - d) * ((width m + height m) - d))"
proof -
  from potential_step_Inr_pop [OF assms] obtain d pos where
    pop: "heappop (tuple_lt pos_lt) q = Inr ((d, pos), remove1 (d, pos) q)"
    and mem: "(d, pos) \<in> set q" by blast
  note step = assms [unfolded potential_step_pop [OF pop]]
  show thesis
  proof (cases "map_of seen pos = None")
    case False
    with step have "q' = remove1 (d, pos) q" "seen' = seen" "p' = p" by simp_all
    with mem False show thesis by (rule skip)
  next
    case True
    show thesis
    proof (cases "get_cell m pos")
      case (Inl e)
      with step True show thesis by simp
    next
      case (Inr c)
      show thesis
      proof (cases "ship c = None")
        case False
        with step True Inr have "q' = remove1 (d, pos) q" "seen' = AList.update pos d seen" "p' = p"
          by simp_all
        with mem True Inr False show thesis by (rule occupied)
      next
        case sh: True
        show thesis
        proof (cases "push_neighbours m (d + 1) (get_surrounding_cardinals pos) (remove1 (d, pos) q)")
          case (Inl e)
          with step True Inr sh show thesis by simp
        next
          case q2: (Inr q2)
          from push_neighbours_Inr [OF q2] obtain ps where
            ps: "q2 = remove1 (d, pos) q @ map (Pair (d + 1)) ps"
              "map (normalize m) (get_surrounding_cardinals pos) = map Inr ps" by blast
          from step True Inr sh q2 have
            "q' = q2" "seen' = AList.update pos d seen"
            "p' = (if cell_structure c = Some ident
             then p + (- 1000) * ((width m + height m) - d)
             else p + halite_amount c * ((width m + height m) - d) * ((width m + height m) - d))"
            by auto
          with mem True Inr sh ps show thesis by (intro expand [of d pos c ps]) simp_all
        qed
      qed
    qed
  qed
qed

lemma normalized_all_in_grid:
  "map (normalize m) ns = map Inr ps \<Longrightarrow> set ps \<subseteq> grid_positions m"
proof (induction ns arbitrary: ps)
  case Nil
  then show ?case by simp
next
  case (Cons n ns)
  then show ?case by (cases ps) (auto dest: normalize_in_grid)
qed

lemma length_cardinals: "length (get_surrounding_cardinals p) = 4"
  by (simp add: get_surrounding_cardinals_def get_all_cardinals_def)

lemma potential_step_decreases:
  assumes "potential_step m pos_lt ident (q, seen, p) = Inr (q', seen', p')"
  shows "5 * card (unseen m q' seen') + length q' < 5 * card (unseen m q seen) + length q"
  using assms
proof (cases rule: potential_step_cases)
  case (skip d pos)
  have "snd ` set q' \<subseteq> snd ` set q \<union> grid_positions m"
    using skip(3) set_remove1_subset [of "(d, pos)" q] by auto
  then have "card (unseen m q' seen') \<le> card (unseen m q seen)"
    using skip(4) by (simp add: card_unseen_mono)
  moreover have "length q' < length q"
    using skip(1,3) length_pos_if_in_set [of "(d, pos)" q] by (simp add: length_remove1)
  ultimately show ?thesis by linarith
next
  case (occupied d pos c)
  have sub: "snd ` set q' \<subseteq> snd ` set q \<union> grid_positions m"
    using occupied(5) set_remove1_subset [of "(d, pos)" q] by auto
  have "card (unseen m q' seen') < card (unseen m q seen)"
    using occupied by (intro card_unseen_less [OF sub, where d = d and pos = pos])
      (auto simp: update_conv' image_iff intro: bexI [of _ "(d, pos)"])
  moreover have "length q' \<le> length q" using occupied by (simp add: length_remove1)
  ultimately show ?thesis by linarith
next
  case (expand d pos c ps)
  have "set ps \<subseteq> grid_positions m" using expand(5) by (rule normalized_all_in_grid)
  then have sub: "snd ` set q' \<subseteq> snd ` set q \<union> grid_positions m"
    using expand(6) set_remove1_subset [of "(d, pos)" q] by auto
  have "card (unseen m q' seen') < card (unseen m q seen)"
    using expand by (intro card_unseen_less [OF sub, where d = d and pos = pos])
      (auto simp: update_conv' image_iff intro: bexI [of _ "(d, pos)"])
  moreover have "length ps = 4"
    using arg_cong [OF expand(5), of length] by (simp add: length_cardinals)
  then have "length q' \<le> length q + 4" using expand by (simp add: length_remove1)
  ultimately show ?thesis by linarith
qed

termination potential_loop
proof (relation "measure (\<lambda>(m, pos_lt, ident, (q, seen, p)). 5 * card (unseen m q seen) + length q)")
  show "wf (measure (\<lambda>(m, pos_lt, ident, (q, seen, p)). 5 * card (unseen m q seen) + length q))"
    by simp
next
  fix m pos_lt ident q seen potential_sum st
  assume "potential_step m pos_lt ident (q, seen, potential_sum) = Inr st"
  then show "((m, pos_lt, ident, st), (m, pos_lt, ident, q, seen, potential_sum))
      \<in> measure (\<lambda>(m, pos_lt, ident, (q, seen, p)). 5 * card (unseen m q seen) + length q)"
    using potential_step_decreases [of m pos_lt ident q seen potential_sum "fst st" "fst (snd st)" "snd (snd st)"]
    by (cases st) simp
qed

text \<open>\<^verbatim>\<open>_calculate_potential_cell\<close>: the queue starts with the source at distance 0. The
  argument \<open>dropoffs\<close> is not read by the code.\<close>

definition calculate_potential_cell ::
  "game_map \<Rightarrow> (position \<Rightarrow> position \<Rightarrow> bool) \<Rightarrow> position \<Rightarrow> position list \<Rightarrow> int \<Rightarrow> error + int" where
  "calculate_potential_cell m pos_lt source dropoffs ident =
     potential_loop m pos_lt ident (heappush [] (0, source), [], 0)"

text \<open>\<^verbatim>\<open>finding_halite\<close>: the loop over the four cardinal directions carries
  \<open>(potential_highest, move_dir)\<close>. Of the ship only the position is read.\<close>

fun finding_halite_loop ::
  "game_map \<Rightarrow> (position \<Rightarrow> position \<Rightarrow> bool) \<Rightarrow> position \<Rightarrow> int \<Rightarrow> direction list
     \<Rightarrow> int \<times> direction \<Rightarrow> error + direction" where
  "finding_halite_loop m pos_lt ship_position ident [] (potential_highest, move_dir) = Inr move_dir"
| "finding_halite_loop m pos_lt ship_position ident (direction # rest) (potential_highest, move_dir) =
     (case normalize m (directional_offset ship_position direction) of
        Inl e \<Rightarrow> Inl e
      | Inr position \<Rightarrow>
          (case get_cell m position of
             Inl e \<Rightarrow> Inl e
           | Inr c \<Rightarrow>
               (case (if is_occupied c then Inr 0
                      else calculate_potential_cell m pos_lt position [] ident) of
                  Inl e \<Rightarrow> Inl e
                | Inr potential_here \<Rightarrow>
                    if potential_here > potential_highest
                    then finding_halite_loop m pos_lt ship_position ident rest (potential_here, direction)
                    else finding_halite_loop m pos_lt ship_position ident rest
                           (potential_highest, move_dir))))"

definition finding_halite ::
  "game_map \<Rightarrow> (position \<Rightarrow> position \<Rightarrow> bool) \<Rightarrow> position \<Rightarrow> int \<Rightarrow> error + direction" where
  "finding_halite m pos_lt ship_position ident =
     finding_halite_loop m pos_lt ship_position ident get_all_cardinals (0, Still)"

text \<open>The potential that the loop of \<^verbatim>\<open>finding_halite\<close> computes for a direction: 0 when
  the cell of the normalised neighbour is occupied, the result of
  \<^verbatim>\<open>_calculate_potential_cell\<close> at the neighbour otherwise.\<close>

definition candidate_potential ::
  "game_map \<Rightarrow> (position \<Rightarrow> position \<Rightarrow> bool) \<Rightarrow> position \<Rightarrow> int \<Rightarrow> direction \<Rightarrow> error + int" where
  "candidate_potential m pos_lt ship_position ident direction =
     (case normalize m (directional_offset ship_position direction) of
        Inl e \<Rightarrow> Inl e
      | Inr position \<Rightarrow>
          (case get_cell m position of
             Inl e \<Rightarrow> Inl e
           | Inr c \<Rightarrow>
               if is_occupied c then Inr 0
               else calculate_potential_cell m pos_lt position [] ident))"

subsection \<open>The return-cost map\<close>

text \<open>The loop over the neighbours in \<^verbatim>\<open>dijkstra_map\<close>: each normalised neighbour is
  pushed with the cost \<^verbatim>\<open>cost + halite_amount/10 + 50\<close> and its amount is added to the
  running sum.\<close>

fun relax_neighbours ::
  "game_map \<Rightarrow> rat \<Rightarrow> position list \<Rightarrow> (rat \<times> position) list \<times> int
     \<Rightarrow> error + (rat \<times> position) list \<times> int" where
  "relax_neighbours m cost [] (q, avg_halite) = Inr (q, avg_halite)"
| "relax_neighbours m cost (neighbour # rest) (q, avg_halite) =
     (case normalize m neighbour of
        Inl e \<Rightarrow> Inl e
      | Inr n \<Rightarrow>
          (case get_cell m n of
             Inl e \<Rightarrow> Inl e
           | Inr c \<Rightarrow>
               (let new_cost = cost + of_int (halite_amount c) / 10 + 50
                in relax_neighbours m cost rest
                     (heappush q (new_cost, n), avg_halite + halite_amount c))))"

type_synonym dijkstra_state = "(rat \<times> position) list \<times> (position \<times> rat) list \<times> int"

definition dijkstra_step ::
  "game_map \<Rightarrow> (position \<Rightarrow> position \<Rightarrow> bool) \<Rightarrow> dijkstra_state \<Rightarrow> error + dijkstra_state" where
  "dijkstra_step m pos_lt st =
     (case st of (q, cost_map, avg_halite) \<Rightarrow>
        (case heappop (tuple_lt pos_lt) q of
           Inl e \<Rightarrow> Inl e
         | Inr ((cost, position), q1) \<Rightarrow>
             if map_of cost_map position \<noteq> None then Inr (q1, cost_map, avg_halite)
             else
               (case get_cell m position of
                  Inl e \<Rightarrow> Inl e
                | Inr c \<Rightarrow>
                    (case relax_neighbours m cost (get_surrounding_cardinals position)
                            (q1, avg_halite + halite_amount c) of
                       Inl e \<Rightarrow> Inl e
                     | Inr (q2, avg2) \<Rightarrow> Inr (q2, AList.update position cost cost_map, avg2)))))"

function dijkstra_loop ::
  "game_map \<Rightarrow> (position \<Rightarrow> position \<Rightarrow> bool) \<Rightarrow> dijkstra_state \<Rightarrow> error + (position \<times> rat) list \<times> int" where
  "dijkstra_loop m pos_lt (q, cost_map, avg_halite) =
     (if q = [] then Inr (cost_map, avg_halite)
      else (case dijkstra_step m pos_lt (q, cost_map, avg_halite) of
              Inl e \<Rightarrow> Inl e
            | Inr st \<Rightarrow> dijkstra_loop m pos_lt st))"
  by pat_completeness auto

lemma relax_neighbours_Inr:
  "relax_neighbours m cost ns (q, a) = Inr (q2, a2) \<Longrightarrow>
     \<exists>es. q2 = q @ es \<and> length es = length ns \<and> map (normalize m) ns = map (Inr \<circ> snd) es"
proof (induction ns arbitrary: q a)
  case Nil
  then show ?case by simp
next
  case (Cons n ns)
  from Cons.prems obtain p where p: "normalize m n = Inr p"
    by (cases "normalize m n") simp_all
  from Cons.prems p obtain c where c: "get_cell m p = Inr c"
    by (cases "get_cell m p") simp_all
  from Cons.prems p c have rec: "relax_neighbours m cost ns
      (heappush q (cost + of_int (halite_amount c) / 10 + 50, p), a + halite_amount c) = Inr (q2, a2)"
    by (simp add: Let_def)
  from Cons.IH [OF rec] obtain es where
    "q2 = heappush q (cost + of_int (halite_amount c) / 10 + 50, p) @ es" "length es = length ns"
    "map (normalize m) ns = map (Inr \<circ> snd) es" by blast
  then show ?case using p
    by (intro exI [of _ "(cost + of_int (halite_amount c) / 10 + 50, p) # es"]) (simp add: heappush_def)
qed

lemma dijkstra_step_pop:
  assumes "heappop (tuple_lt pos_lt) q = Inr ((cost, pos), q1)"
  shows "dijkstra_step m pos_lt (q, cm, a) =
     (if map_of cm pos \<noteq> None then Inr (q1, cm, a)
      else case get_cell m pos of
             Inl e \<Rightarrow> Inl e
           | Inr c \<Rightarrow>
               (case relax_neighbours m cost (get_surrounding_cardinals pos) (q1, a + halite_amount c) of
                  Inl e \<Rightarrow> Inl e
                | Inr (q2, avg2) \<Rightarrow> Inr (q2, AList.update pos cost cm, avg2)))"
  using assms by (simp add: dijkstra_step_def)

lemma dijkstra_step_Inr_pop:
  assumes "dijkstra_step m pos_lt (q, cm, a) = Inr st"
  shows "\<exists>d pos. heappop (tuple_lt pos_lt) q = Inr ((d, pos), remove1 (d, pos) q) \<and> (d, pos) \<in> set q"
proof (cases q)
  case Nil
  with assms show ?thesis by (simp add: dijkstra_step_def heappop_def)
next
  case (Cons x xs)
  then have "q \<noteq> []" by simp
  from heappop_nonempty [OF this, of "tuple_lt pos_lt"] obtain e where
    "heappop (tuple_lt pos_lt) q = Inr (e, remove1 e q)" "e \<in> set q" by blast
  then show ?thesis by (cases e) auto
qed

lemma dijkstra_step_cases:
  assumes "dijkstra_step m pos_lt (q, cm, a) = Inr (q', cm', a')"
  obtains (skip) d pos where "(d, pos) \<in> set q" "map_of cm pos \<noteq> None"
      "q' = remove1 (d, pos) q" "cm' = cm" "a' = a"
  | (expand) d pos c es where "(d, pos) \<in> set q" "map_of cm pos = None"
      "get_cell m pos = Inr c"
      "relax_neighbours m d (get_surrounding_cardinals pos) (remove1 (d, pos) q, a + halite_amount c)
         = Inr (q', a')"
      "map (normalize m) (get_surrounding_cardinals pos) = map (Inr \<circ> snd) es"
      "q' = remove1 (d, pos) q @ es"
      "cm' = AList.update pos d cm"
proof -
  from dijkstra_step_Inr_pop [OF assms] obtain d pos where
    pop: "heappop (tuple_lt pos_lt) q = Inr ((d, pos), remove1 (d, pos) q)"
    and mem: "(d, pos) \<in> set q" by blast
  note step = assms [unfolded dijkstra_step_pop [OF pop]]
  show thesis
  proof (cases "map_of cm pos = None")
    case False
    with step have "q' = remove1 (d, pos) q" "cm' = cm" "a' = a" by simp_all
    with mem False show thesis by (rule skip)
  next
    case True
    show thesis
    proof (cases "get_cell m pos")
      case (Inl e)
      with step True show thesis by simp
    next
      case (Inr c)
      show thesis
      proof (cases "relax_neighbours m d (get_surrounding_cardinals pos)
                      (remove1 (d, pos) q, a + halite_amount c)")
        case (Inl e)
        with step True Inr show thesis by simp
      next
        case r: (Inr r)
        obtain q2 a2 where r2: "r = (q2, a2)" by (cases r)
        from step True Inr r r2 have eq: "q' = q2" "a' = a2" "cm' = AList.update pos d cm"
          by simp_all
        from relax_neighbours_Inr [OF r [unfolded r2]] obtain es where
          es: "q2 = remove1 (d, pos) q @ es"
            "map (normalize m) (get_surrounding_cardinals pos) = map (Inr \<circ> snd) es" by blast
        show thesis
          using mem True Inr r r2 eq es by (intro expand [of d pos c es]) simp_all
      qed
    qed
  qed
qed

lemma normalized_entries_in_grid:
  "map (normalize m) ns = map (Inr \<circ> snd) es \<Longrightarrow> snd ` set es \<subseteq> grid_positions m"
proof (induction ns arbitrary: es)
  case Nil
  then show ?case by simp
next
  case (Cons n ns)
  then show ?case by (cases es) (auto dest: normalize_in_grid)
qed

lemma dijkstra_step_decreases:
  assumes "dijkstra_step m pos_lt (q, cm, a) = Inr (q', cm', a')"
  shows "5 * card (unseen m q' cm') + length q' < 5 * card (unseen m q cm) + length q"
  using assms
proof (cases rule: dijkstra_step_cases)
  case (skip d pos)
  have "snd ` set q' \<subseteq> snd ` set q \<union> grid_positions m"
    using skip(3) set_remove1_subset [of "(d, pos)" q] by auto
  then have "card (unseen m q' cm') \<le> card (unseen m q cm)"
    using skip(4) by (simp add: card_unseen_mono)
  moreover have "length q' < length q"
    using skip(1,3) length_pos_if_in_set [of "(d, pos)" q] by (simp add: length_remove1)
  ultimately show ?thesis by linarith
next
  case (expand d pos c es)
  have "snd ` set es \<subseteq> grid_positions m" using expand(5) by (rule normalized_entries_in_grid)
  then have sub: "snd ` set q' \<subseteq> snd ` set q \<union> grid_positions m"
    using expand(6) set_remove1_subset [of "(d, pos)" q] by auto
  have "card (unseen m q' cm') < card (unseen m q cm)"
    using expand by (intro card_unseen_less [OF sub, where d = d and pos = pos])
      (auto simp: update_conv' image_iff intro: bexI [of _ "(d, pos)"])
  moreover have "length es = 4"
    using arg_cong [OF expand(5), of length] by (simp add: length_cardinals)
  then have "length q' \<le> length q + 4" using expand by (simp add: length_remove1)
  ultimately show ?thesis by linarith
qed

termination dijkstra_loop
proof (relation "measure (\<lambda>(m, pos_lt, (q, cm, a)). 5 * card (unseen m q cm) + length q)")
  show "wf (measure (\<lambda>(m, pos_lt, (q, cm, a)). 5 * card (unseen m q cm) + length q))"
    by simp
next
  fix m pos_lt q cost_map avg_halite st
  assume "dijkstra_step m pos_lt (q, cost_map, avg_halite) = Inr st"
  then show "((m, pos_lt, st), (m, pos_lt, q, cost_map, avg_halite))
      \<in> measure (\<lambda>(m, pos_lt, (q, cm, a)). 5 * card (unseen m q cm) + length q)"
    using dijkstra_step_decreases [of m pos_lt q cost_map avg_halite "fst st" "fst (snd st)" "snd (snd st)"]
    by (cases st) simp
qed

text \<open>\<^verbatim>\<open>dijkstra_map\<close>: the queue starts with the position of the base at cost 0; the
  sum of amounts is divided by the number of cells at the end.\<close>

definition dijkstra_map ::
  "game_map \<Rightarrow> (position \<Rightarrow> position \<Rightarrow> bool) \<Rightarrow> position \<Rightarrow> error + (position \<times> rat) list \<times> rat" where
  "dijkstra_map m pos_lt base_position =
     (case dijkstra_loop m pos_lt (heappush [] (0, base_position), [], 0) of
        Inl e \<Rightarrow> Inl e
      | Inr (cost_map, avg_halite) \<Rightarrow>
          if width m * height m = 0 then Inl ZeroDivisionError
          else Inr (cost_map, of_int avg_halite / of_int (width m * height m)))"

text \<open>The normalised coordinate as a value, for maps whose extents are not 0.\<close>

definition wrapped :: "game_map \<Rightarrow> position \<Rightarrow> position" where
  "wrapped m p = Position (pos_x p mod width m) (pos_y p mod height m)"

text \<open>What holds of the frontier and the cost map throughout the loop of \<^verbatim>\<open>dijkstra_map\<close>:
  the base is finalised or queued, every normalised neighbour of a finalised coordinate is
  finalised or queued, only coordinates of the grid occur, and no coordinate is recorded
  twice.\<close>

definition frontier_inv ::
  "game_map \<Rightarrow> position \<Rightarrow> ('c \<times> position) list \<Rightarrow> (position \<times> 'v) list \<Rightarrow> bool" where
  "frontier_inv m base q cm =
     (base \<in> fst ` set cm \<union> snd ` set q
      \<and> (\<forall>p\<in>fst ` set cm. \<forall>d\<in>set get_all_cardinals.
            wrapped m (directional_offset p d) \<in> fst ` set cm \<union> snd ` set q)
      \<and> fst ` set cm \<union> snd ` set q \<subseteq> Collect (in_grid m)
      \<and> distinct (map fst cm))"



subsection \<open>Following the cost map\<close>

text \<open>A dictionary read \<^verbatim>\<open>d[k]\<close> raises \<^verbatim>\<open>KeyError\<close> on a missing key. The costs are
  compared only, so any linear order serves for them.\<close>

definition dict_get :: "('k \<times> 'v) list \<Rightarrow> 'k \<Rightarrow> error + 'v" where
  "dict_get d k = (case map_of d k of None \<Rightarrow> Inl KeyError | Some v \<Rightarrow> Inr v)"

fun navigate_back_loop ::
  "game_map \<Rightarrow> position \<Rightarrow> (position \<times> 'c::linorder) list \<Rightarrow> direction list
     \<Rightarrow> 'c \<times> direction \<Rightarrow> error + direction" where
  "navigate_back_loop m ship_position cost_map [] (cost, move_dir) = Inr move_dir"
| "navigate_back_loop m ship_position cost_map (direction # rest) (cost, move_dir) =
     (case normalize m (directional_offset ship_position direction) of
        Inl e \<Rightarrow> Inl e
      | Inr target_pos \<Rightarrow>
          (case dict_get cost_map target_pos of
             Inl e \<Rightarrow> Inl e
           | Inr target_cost \<Rightarrow>
               if target_cost < cost
               then navigate_back_loop m ship_position cost_map rest (target_cost, direction)
               else navigate_back_loop m ship_position cost_map rest (cost, move_dir)))"

definition navigate_back ::
  "game_map \<Rightarrow> position \<Rightarrow> (position \<times> 'c::linorder) list \<Rightarrow> error + direction" where
  "navigate_back m ship_position cost_map =
     (case dict_get cost_map ship_position of
        Inl e \<Rightarrow> Inl e
      | Inr cost \<Rightarrow> navigate_back_loop m ship_position cost_map get_all_cardinals (cost, Still))"

text \<open>The cost \<^verbatim>\<open>dijkstra_map[target_pos]\<close> that the loop of \<^verbatim>\<open>navigate_back\<close> reads for
  a direction: the entry of the normalised neighbour in that direction.\<close>

definition neighbour_cost ::
  "game_map \<Rightarrow> position \<Rightarrow> (position \<times> 'c) list \<Rightarrow> direction \<Rightarrow> error + 'c" where
  "neighbour_cost m ship_position cost_map direction =
     (case normalize m (directional_offset ship_position direction) of
        Inl e \<Rightarrow> Inl e
      | Inr target_pos \<Rightarrow> dict_get cost_map target_pos)"

subsection \<open>The per-turn update\<close>

text \<open>An assignment to a field of \<^verbatim>\<open>self[position]\<close>: the cell object found by
  \<^verbatim>\<open>__getitem__\<close> is changed in place. The rows and the cells are distinct objects, as
  \<^verbatim>\<open>_generate\<close> builds them.\<close>

definition py_slot :: "'a list \<Rightarrow> int \<Rightarrow> nat" where
  "py_slot xs i = nat (if i < 0 then int (length xs) + i else i)"

definition update_cell :: "game_map \<Rightarrow> position \<Rightarrow> (map_cell \<Rightarrow> map_cell) \<Rightarrow> error + game_map" where
  "update_cell m location f =
     (case normalize m location of
        Inl e \<Rightarrow> Inl e
      | Inr l \<Rightarrow>
          (case py_index (cells m) (pos_y l) of
             Inl e \<Rightarrow> Inl e
           | Inr row \<Rightarrow>
               (case py_index row (pos_x l) of
                  Inl e \<Rightarrow> Inl e
                | Inr c \<Rightarrow>
                    Inr (m\<lparr>cells := (cells m)[py_slot (cells m) (pos_y l) :=
                                      row[py_slot row (pos_x l) := f c]]\<rparr>))))"

fun update_cells ::
  "game_map \<Rightarrow> position list \<Rightarrow> (map_cell \<Rightarrow> map_cell) \<Rightarrow> error + game_map" where
  "update_cells m [] f = Inr m"
| "update_cells m (p # ps) f =
     (case update_cell m p f of Inl e \<Rightarrow> Inl e | Inr m1 \<Rightarrow> update_cells m1 ps f)"

text \<open>The feed of \<^verbatim>\<open>_update\<close> after parsing: one triple
  \<^verbatim>\<open>(cell_x, cell_y, cell_energy)\<close> per line read.\<close>

fun apply_resource_updates :: "game_map \<Rightarrow> (int \<times> int \<times> int) list \<Rightarrow> error + game_map" where
  "apply_resource_updates m [] = Inr m"
| "apply_resource_updates m ((cell_x, cell_y, cell_energy) # rest) =
     (case update_cell m (Position cell_x cell_y) (\<lambda>c. c\<lparr>halite_amount := cell_energy\<rparr>) of
        Inl e \<Rightarrow> Inl e
      | Inr m1 \<Rightarrow> apply_resource_updates m1 rest)"

definition update_map :: "game_map \<Rightarrow> (int \<times> int \<times> int) list \<Rightarrow> error + game_map" where
  "update_map m feed =
     (case update_cells m
             (concat (map (\<lambda>y. map (\<lambda>x. Position x y) [0 .. width m - 1]) [0 .. height m - 1]))
             (\<lambda>c. c\<lparr>ship := None\<rparr>) of
        Inl e \<Rightarrow> Inl e
      | Inr m1 \<Rightarrow> apply_resource_updates m1 feed)"

section \<open>Well-formed maps\<close>

lemma normalize_wf:
  "wf_map m \<Longrightarrow> normalize m p = Inr (Position (pos_x p mod width m) (pos_y p mod height m))"
  by (simp add: wf_map_def normalize_def)

lemma py_index_in_range:
  "0 \<le> i \<Longrightarrow> i < int (length xs) \<Longrightarrow> py_index xs i = Inr (xs ! nat i)"
  by (simp add: py_index_def Let_def)

lemma py_slot_in_range: "0 \<le> i \<Longrightarrow> py_slot xs i = nat i"
  by (simp add: py_slot_def)

lemma wf_row:
  assumes "wf_map m" "0 \<le> j" "j < height m"
  shows "int (length (cells m ! nat j)) = width m"
proof -
  from assms have "nat j < length (cells m)" by (simp add: wf_map_def) linarith
  moreover from assms(1) have "\<forall>row\<in>set (cells m). int (length row) = width m"
    by (simp add: wf_map_def list_all_iff)
  ultimately show ?thesis by (metis nth_mem)
qed

lemma get_cell_wf:
  assumes "wf_map m"
  shows "get_cell m p = Inr (cells m ! nat (pos_y p mod height m) ! nat (pos_x p mod width m))"
proof -
  from assms have w: "0 < width m" and h: "0 < height m" and len: "int (length (cells m)) = height m"
    by (simp_all add: wf_map_def)
  have row: "py_index (cells m) (pos_y p mod height m) = Inr (cells m ! nat (pos_y p mod height m))"
    using h len by (intro py_index_in_range) simp_all
  have "int (length (cells m ! nat (pos_y p mod height m))) = width m"
    using assms h by (intro wf_row) simp_all
  then have cell: "py_index (cells m ! nat (pos_y p mod height m)) (pos_x p mod width m)
      = Inr (cells m ! nat (pos_y p mod height m) ! nat (pos_x p mod width m))"
    using w by (intro py_index_in_range) simp_all
  show ?thesis by (simp add: get_cell_def normalize_wf [OF assms] row cell)
qed

lemma update_cell_wf:
  assumes "wf_map m"
  shows "update_cell m p f =
     Inr (m\<lparr>cells := (cells m)[nat (pos_y p mod height m) :=
            (cells m ! nat (pos_y p mod height m))[nat (pos_x p mod width m) :=
               f (cells m ! nat (pos_y p mod height m) ! nat (pos_x p mod width m))]]\<rparr>)"
proof -
  from assms have w: "0 < width m" and h: "0 < height m" and len: "int (length (cells m)) = height m"
    by (simp_all add: wf_map_def)
  have row: "py_index (cells m) (pos_y p mod height m) = Inr (cells m ! nat (pos_y p mod height m))"
    using h len by (intro py_index_in_range) simp_all
  have "int (length (cells m ! nat (pos_y p mod height m))) = width m"
    using assms h by (intro wf_row) simp_all
  then have cell: "py_index (cells m ! nat (pos_y p mod height m)) (pos_x p mod width m)
      = Inr (cells m ! nat (pos_y p mod height m) ! nat (pos_x p mod width m))"
    using w by (intro py_index_in_range) simp_all
  show ?thesis
    using w h by (simp add: update_cell_def normalize_wf [OF assms] row cell py_slot_in_range)
qed

lemma wf_map_update:
  assumes "wf_map m"
  shows "wf_map (m\<lparr>cells := (cells m)[j := (cells m ! j)[i := c]]\<rparr>)"
proof (cases "j < length (cells m)")
  case False
  then have "(cells m)[j := (cells m ! j)[i := c]] = cells m"
    by (intro list_update_beyond) simp
  with assms show ?thesis by (simp add: wf_map_def)
next
  case True
  from assms have all: "\<forall>row\<in>set (cells m). int (length row) = width m"
    by (simp add: wf_map_def list_all_iff)
  with True have "int (length ((cells m ! j)[i := c])) = width m" by simp
  with all have "\<forall>row\<in>insert ((cells m ! j)[i := c]) (set (cells m)). int (length row) = width m"
    by simp
  then have "\<forall>row\<in>set ((cells m)[j := (cells m ! j)[i := c]]). int (length row) = width m"
    using set_update_subset_insert [of "cells m" j "(cells m ! j)[i := c]"] by blast
  with assms show ?thesis by (simp add: wf_map_def list_all_iff)
qed

lemma update_overwrites:
  assumes "wf_map m"
  shows "\<exists>m1 c. update_cell m (Position x y) (\<lambda>c. c\<lparr>halite_amount := e\<rparr>) = Inr m1
           \<and> wf_map m1
           \<and> get_cell m (Position x y) = Inr c
           \<and> get_cell m1 (Position x y) = Inr (c\<lparr>halite_amount := e\<rparr>)"
proof -
  let ?j = "nat (y mod height m)" and ?i = "nat (x mod width m)"
  let ?c = "cells m ! ?j ! ?i"
  let ?m1 = "m\<lparr>cells := (cells m)[?j := (cells m ! ?j)[?i := ?c\<lparr>halite_amount := e\<rparr>]]\<rparr>"
  from assms have w: "0 < width m" and h: "0 < height m" and len: "int (length (cells m)) = height m"
    by (simp_all add: wf_map_def)
  have upd: "update_cell m (Position x y) (\<lambda>c. c\<lparr>halite_amount := e\<rparr>) = Inr ?m1"
    using update_cell_wf [OF assms, of "Position x y"] by simp
  have wf1: "wf_map ?m1" using assms by (rule wf_map_update)
  have j: "?j < length (cells m)" using h len by (simp add: nat_less_iff)
  have "int (length (cells m ! ?j)) = width m" using assms h by (intro wf_row) simp_all
  then have i: "?i < length (cells m ! ?j)" using w by (simp add: nat_less_iff)
  have g: "get_cell m (Position x y) = Inr ?c" using get_cell_wf [OF assms, of "Position x y"] by simp
  have "get_cell ?m1 (Position x y) = Inr (cells ?m1 ! ?j ! ?i)"
    using get_cell_wf [OF wf1, of "Position x y"] by simp
  also have "cells ?m1 ! ?j ! ?i = ?c\<lparr>halite_amount := e\<rparr>" using i j by simp
  finally show ?thesis using upd wf1 g by blast
qed

section \<open>The claims\<close>

text \<open>
  Claim C9. On a map with non-zero extents, for every pair of integer coordinates,
  \<^verbatim>\<open>calculate_distance\<close> is the toroidal Manhattan metric of the specification (normalise
  both points, take the component-wise absolute deltas, add the shorter way around on each
  axis); it is symmetric; and on the 5 by 5 map the distance from (0,0) to (4,0) is 1.
\<close>

theorem calculate_distance_toroidal:
  assumes "width m \<noteq> 0" and "height m \<noteq> 0"
  shows "calculate_distance m a b = Inr (toroidal_distance (width m) (height m) a b)
       \<and> calculate_distance m a b = calculate_distance m b a
       \<and> calculate_distance (uniform_map 5 5 0) (Position 0 0) (Position 4 0) = Inr 1"
proof (intro conjI)
  show "calculate_distance m a b = Inr (toroidal_distance (width m) (height m) a b)"
    using assms
    by (simp add: calculate_distance_def normalize_def toroidal_distance_def pos_abs_def
        pos_sub_def Let_def)
  show "calculate_distance m a b = calculate_distance m b a"
    using assms
    by (simp add: calculate_distance_def normalize_def pos_abs_def pos_sub_def Let_def
        abs_minus_commute)
  show "calculate_distance (uniform_map 5 5 0) (Position 0 0) (Position 4 0) = Inr 1"
    by (simp add: calculate_distance_def normalize_def uniform_map_def generate_def pos_abs_def
        pos_sub_def Let_def)
qed

text \<open>The theorem of C9 at the 5 by 5 map and the points (1,2) and (4,4).\<close>

theorem calculate_distance_toroidal_witness:
  "width (uniform_map 5 5 0) \<noteq> 0 \<and> height (uniform_map 5 5 0) \<noteq> 0
   \<and> calculate_distance (uniform_map 5 5 0) (Position 1 2) (Position 4 4) = Inr 4
   \<and> calculate_distance (uniform_map 5 5 0) (Position 4 4) (Position 1 2) = Inr 4
   \<and> toroidal_distance 5 5 (Position 1 2) (Position 4 4) = 4"
  using calculate_distance_toroidal [of "uniform_map 5 5 0" "Position 1 2" "Position 4 4"]
  by (simp add: uniform_map_def generate_def toroidal_distance_def Let_def calculate_distance_def
      normalize_def pos_abs_def pos_sub_def)

text \<open>
  Claim C2 says that an update with a negative amount leaves the stored amount unchanged.
  \<^verbatim>\<open>_update\<close> assigns \<^verbatim>\<open>cell_energy\<close> without looking at its sign: on the 1 by 1 map
  holding 7, the feed line \<^verbatim>\<open>0 0 -5\<close> leaves the cell holding -5.
\<close>

theorem update_map_negative_counterexample:
  "map_sum id (map (map halite_amount) \<circ> cells) (update_map (uniform_map 1 1 7) [(0, 0, - 5)])
     = Inr [[- 5]]"
  by (simp add: update_map_def uniform_map_def generate_def generate_row_def MapCell_def
      update_cell_def normalize_def py_index_def py_slot_def Let_def upto.simps)

text \<open>
  Claim C2, as the code has it. On a well-formed map every update \<^verbatim>\<open>(x, y, amount)\<close> of the
  feed, whatever the sign of the amount, overwrites the amount of the cell at the normalised
  coordinate and leaves its other fields as they were; no update is rejected, the map stays
  well formed and the remaining updates of the turn are applied to the updated map.
\<close>

theorem apply_resource_update_overwrites:
  assumes "wf_map m"
  shows "\<exists>m1 c. apply_resource_updates m ((x, y, e) # rest) = apply_resource_updates m1 rest
           \<and> wf_map m1
           \<and> get_cell m (Position x y) = Inr c
           \<and> get_cell m1 (Position x y) = Inr (c\<lparr>halite_amount := e\<rparr>)"
proof -
  from update_overwrites [OF assms, of x y e] obtain m1 c where
    "update_cell m (Position x y) (\<lambda>c. c\<lparr>halite_amount := e\<rparr>) = Inr m1" "wf_map m1"
    "get_cell m (Position x y) = Inr c" "get_cell m1 (Position x y) = Inr (c\<lparr>halite_amount := e\<rparr>)"
    by blast
  then show ?thesis by (intro exI [of _ m1] exI [of _ c]) simp
qed

text \<open>The theorem of C2 at the 1 by 1 map holding 7 and the update \<^verbatim>\<open>(0, 0, -5)\<close>.\<close>

theorem apply_resource_update_overwrites_witness:
  "wf_map (uniform_map 1 1 7)
   \<and> (\<exists>m1 c. apply_resource_updates (uniform_map 1 1 7) [(0, 0, - 5)] = Inr m1
           \<and> get_cell (uniform_map 1 1 7) (Position 0 0) = Inr c
           \<and> halite_amount c = 7
           \<and> get_cell m1 (Position 0 0) = Inr (c\<lparr>halite_amount := - 5\<rparr>))"
proof -
  have wf: "wf_map (uniform_map 1 1 7)"
    by (simp add: wf_map_def uniform_map_def generate_def generate_row_def)
  from apply_resource_update_overwrites [OF wf, of 0 0 "- 5" "[]"] obtain m1 c where
    a: "apply_resource_updates (uniform_map 1 1 7) [(0, 0, - 5)] = Inr m1"
    and g: "get_cell (uniform_map 1 1 7) (Position 0 0) = Inr c"
    and g1: "get_cell m1 (Position 0 0) = Inr (c\<lparr>halite_amount := - 5\<rparr>)"
    by auto
  have "get_cell (uniform_map 1 1 7) (Position 0 0) = Inr (MapCell (Position 0 0) 7)"
    by (simp add: get_cell_def normalize_def py_index_def uniform_map_def generate_def
        generate_row_def Let_def)
  with g have "halite_amount c = 7" by (auto simp: MapCell_def)
  with wf a g g1 show ?thesis by blast
qed

subsection \<open>Bearings on the torus\<close>

lemma unsafe_move_Some:
  "unsafe_move delta extent (Some d) = Inr (Some (if 2 * delta < extent then d else invert d))"
proof -
  have "((of_int delta :: rat) < of_int extent / 2) = (2 * delta < extent)"
  proof -
    have "((of_int delta :: rat) < of_int extent / 2) = ((of_int (2 * delta) :: rat) < of_int extent)"
      by (simp add: field_simps)
    then show ?thesis by (simp only: of_int_less_iff)
  qed
  then show ?thesis by (simp add: unsafe_move_def)
qed

text \<open>
  Claim C4 says that the naive bearing is kept when the delta on an axis is less than or
  equal to half the extent. The comparison in \<^verbatim>\<open>get_unsafe_moves\<close> is strict: on the 4 by 4
  map, from (0,0) to (2,0) the delta on the x axis is 2, exactly half the width, the naive
  bearing is East, and the result is the inverted bearing West.
\<close>

theorem get_unsafe_moves_counterexample:
  "get_unsafe_moves (uniform_map 4 4 0) (Position 0 0) (Position 2 0) = Inr [Some West]"
  by (simp add: get_unsafe_moves_def normalize_def uniform_map_def generate_def pos_abs_def
      pos_sub_def get_target_direction_def unsafe_move_def Let_def)

text \<open>
  Claim C4, as the code has it. For normalised coordinates \<open>a\<close> and \<open>b\<close>, the result of
  \<^verbatim>\<open>get_unsafe_moves\<close> holds, for the x axis first and then the y axis, one direction per
  axis on which they differ: the naive bearing towards \<open>b\<close> when twice the absolute delta is
  less than the extent of the axis, and the inverted bearing otherwise, so also when the
  delta is exactly half the extent. The result has at most two directions.
\<close>

theorem get_unsafe_moves_shorter_way:
  assumes "in_grid m a" and "in_grid m b"
  shows "get_unsafe_moves m a b =
      Inr ((if pos_x a = pos_x b then []
            else [Some (if 2 * \<bar>pos_x b - pos_x a\<bar> < width m
                        then (if pos_x b > pos_x a then East else West)
                        else invert (if pos_x b > pos_x a then East else West))])
         @ (if pos_y a = pos_y b then []
            else [Some (if 2 * \<bar>pos_y b - pos_y a\<bar> < height m
                        then (if pos_y b > pos_y a then South else North)
                        else invert (if pos_y b > pos_y a then South else North))]))
    \<and> (\<forall>ds. get_unsafe_moves m a b = Inr ds \<longrightarrow> length ds \<le> 2)"
proof -
  from assms have na: "normalize m a = Inr a" and nb: "normalize m b = Inr b"
    by (cases a; cases b; simp add: normalize_def in_grid_def)+
  have eq: "get_unsafe_moves m a b =
      Inr ((if pos_x a = pos_x b then []
            else [Some (if 2 * \<bar>pos_x b - pos_x a\<bar> < width m
                        then (if pos_x b > pos_x a then East else West)
                        else invert (if pos_x b > pos_x a then East else West))])
         @ (if pos_y a = pos_y b then []
            else [Some (if 2 * \<bar>pos_y b - pos_y a\<bar> < height m
                        then (if pos_y b > pos_y a then South else North)
                        else invert (if pos_y b > pos_y a then South else North))]))"
    by (cases "pos_x a = pos_x b"; cases "pos_y a = pos_y b"; cases "pos_x b > pos_x a";
        cases "pos_y b > pos_y a")
       (simp_all add: get_unsafe_moves_def na nb pos_abs_def pos_sub_def Let_def
          get_target_direction_def unsafe_move_Some)
  then show ?thesis by auto
qed

text \<open>The theorem of C4 on the 4 by 4 map from (0,0) to (1,3): East is the naive bearing
  on the x axis and is kept, South is the naive bearing on the y axis and is inverted.\<close>

theorem get_unsafe_moves_shorter_way_witness:
  "in_grid (uniform_map 4 4 0) (Position 0 0) \<and> in_grid (uniform_map 4 4 0) (Position 1 3)
   \<and> get_unsafe_moves (uniform_map 4 4 0) (Position 0 0) (Position 1 3) = Inr [Some East, Some North]"
  using get_unsafe_moves_shorter_way [of "uniform_map 4 4 0" "Position 0 0" "Position 1 3"]
  by (simp add: in_grid_def uniform_map_def generate_def)

subsection \<open>Routing to the base\<close>

lemma navigate_back_loop_step:
  "navigate_back_loop m p cm (d # rest) (cost, mv) =
     (case neighbour_cost m p cm d of
        Inl e \<Rightarrow> Inl e
      | Inr tc \<Rightarrow> if tc < cost then navigate_back_loop m p cm rest (tc, d)
                  else navigate_back_loop m p cm rest (cost, mv))"
  by (simp add: neighbour_cost_def split: sum.splits)

lemma navigate_back_loop_first_least:
  assumes "\<forall>d\<in>set ds. neighbour_cost m p cm d = Inr (f d)"
  shows "\<exists>r. navigate_back_loop m p cm ds (cost, mv) = Inr r \<and>
     ((r = mv \<and> (\<forall>d\<in>set ds. cost \<le> f d))
      \<or> (\<exists>pre post. ds = pre @ r # post \<and> f r < cost
            \<and> (\<forall>d\<in>set pre. f r < f d) \<and> (\<forall>d\<in>set post. f r \<le> f d)))"
  using assms
proof (induction ds arbitrary: cost mv)
  case Nil
  then show ?case by simp
next
  case (Cons d rest)
  from Cons.prems have fd: "neighbour_cost m p cm d = Inr (f d)" by simp
  from Cons.prems have rest: "\<forall>d\<in>set rest. neighbour_cost m p cm d = Inr (f d)" by simp
  show ?case
  proof (cases "f d < cost")
    case True
    from Cons.IH [OF rest, of "f d" d] obtain r where
      r: "navigate_back_loop m p cm rest (f d, d) = Inr r"
      and alt: "(r = d \<and> (\<forall>x\<in>set rest. f d \<le> f x))
        \<or> (\<exists>pre post. rest = pre @ r # post \<and> f r < f d
            \<and> (\<forall>x\<in>set pre. f r < f x) \<and> (\<forall>x\<in>set post. f r \<le> f x))"
      by blast
    have step: "navigate_back_loop m p cm (d # rest) (cost, mv) = Inr r"
      using fd True r by (simp only: navigate_back_loop_step) simp
    from alt show ?thesis
    proof
      assume "r = d \<and> (\<forall>x\<in>set rest. f d \<le> f x)"
      then have "d # rest = [] @ r # rest \<and> f r < cost
            \<and> (\<forall>x\<in>set []. f r < f x) \<and> (\<forall>x\<in>set rest. f r \<le> f x)"
        using True by simp
      with step show ?thesis by blast
    next
      assume "\<exists>pre post. rest = pre @ r # post \<and> f r < f d
            \<and> (\<forall>x\<in>set pre. f r < f x) \<and> (\<forall>x\<in>set post. f r \<le> f x)"
      then obtain pre post where "rest = pre @ r # post" "f r < f d"
        "\<forall>x\<in>set pre. f r < f x" "\<forall>x\<in>set post. f r \<le> f x" by blast
      then have "d # rest = (d # pre) @ r # post \<and> f r < cost
            \<and> (\<forall>x\<in>set (d # pre). f r < f x) \<and> (\<forall>x\<in>set post. f r \<le> f x)"
        using True by simp
      with step show ?thesis by blast
    qed
  next
    case False
    from Cons.IH [OF rest, of cost mv] obtain r where
      r: "navigate_back_loop m p cm rest (cost, mv) = Inr r"
      and alt: "(r = mv \<and> (\<forall>x\<in>set rest. cost \<le> f x))
        \<or> (\<exists>pre post. rest = pre @ r # post \<and> f r < cost
            \<and> (\<forall>x\<in>set pre. f r < f x) \<and> (\<forall>x\<in>set post. f r \<le> f x))"
      by blast
    have step: "navigate_back_loop m p cm (d # rest) (cost, mv) = Inr r"
      using fd False r by (simp only: navigate_back_loop_step) simp
    from alt show ?thesis
    proof
      assume "r = mv \<and> (\<forall>x\<in>set rest. cost \<le> f x)"
      with False step show ?thesis by auto
    next
      assume "\<exists>pre post. rest = pre @ r # post \<and> f r < cost
            \<and> (\<forall>x\<in>set pre. f r < f x) \<and> (\<forall>x\<in>set post. f r \<le> f x)"
      then obtain pre post where "rest = pre @ r # post" "f r < cost"
        "\<forall>x\<in>set pre. f r < f x" "\<forall>x\<in>set post. f r \<le> f x" by blast
      then have "d # rest = (d # pre) @ r # post \<and> f r < cost
            \<and> (\<forall>x\<in>set (d # pre). f r < f x) \<and> (\<forall>x\<in>set post. f r \<le> f x)"
        using False by simp
      with step show ?thesis by blast
    qed
  qed
qed


lemma neighbour_cost_present:
  assumes "width m \<noteq> 0" "height m \<noteq> 0"
    and "Position ((pos_x p + pos_x (direction_vec d)) mod width m)
                  ((pos_y p + pos_y (direction_vec d)) mod height m) \<in> fst ` set cm"
  shows "\<exists>c. neighbour_cost m p cm d = Inr c"
proof -
  from assms(3) obtain c where "map_of cm (Position ((pos_x p + pos_x (direction_vec d)) mod width m)
                  ((pos_y p + pos_y (direction_vec d)) mod height m)) = Some c"
    by (metis domD dom_map_of_conv_image_fst)
  with assms(1,2) show ?thesis
    by (simp add: neighbour_cost_def normalize_def directional_offset_def pos_add_def dict_get_def)
qed

text \<open>
  Claim C7. Let the map have non-zero extents (normalising raises otherwise) and let the
  cost map hold the position of the ship, with cost \<open>c0\<close>, and its four normalised cardinal
  neighbours, the neighbour in direction \<open>d\<close> with cost \<open>f d\<close>. Then \<^verbatim>\<open>navigate_back\<close>
  returns a direction \<open>r\<close>: either \<open>Still\<close>, or a cardinal direction whose neighbour costs
  strictly less than \<open>c0\<close>. It returns \<open>Still\<close> exactly when no neighbour costs strictly
  less than the cell of the ship; in particular it returns \<open>Still\<close> when \<open>c0\<close> is 0 and no
  cost is negative. Otherwise \<open>r\<close> is the first direction of least cost in the order North,
  South, East, West: its neighbour costs strictly less than the neighbour of every
  direction before it and at most as much as the neighbour of every direction after it, so
  a later neighbour replaces the choice only when it is strictly cheaper than the best so
  far, and a tie never does.
\<close>

theorem navigate_back_first_least:
  fixes cost_map :: "(position \<times> 'c::{linorder,zero}) list"
  assumes "width m \<noteq> 0" and "height m \<noteq> 0"
    and "map_of cost_map ship_position = Some c0"
    and "\<forall>d\<in>set get_all_cardinals.
           Position ((pos_x ship_position + pos_x (direction_vec d)) mod width m)
                    ((pos_y ship_position + pos_y (direction_vec d)) mod height m)
             \<in> fst ` set cost_map"
  shows "\<exists>f r. navigate_back m ship_position cost_map = Inr r
     \<and> (\<forall>d\<in>set get_all_cardinals. neighbour_cost m ship_position cost_map d = Inr (f d))
     \<and> (r = Still \<or> (r \<in> set get_all_cardinals \<and> f r < c0))
     \<and> (r = Still \<longleftrightarrow> (\<forall>d\<in>set get_all_cardinals. c0 \<le> f d))
     \<and> (r \<noteq> Still \<longrightarrow>
          (\<exists>pre post. get_all_cardinals = pre @ r # post
             \<and> (\<forall>d\<in>set pre. f r < f d) \<and> (\<forall>d\<in>set post. f r \<le> f d)))
     \<and> (c0 = 0 \<and> (\<forall>v\<in>snd ` set cost_map. 0 \<le> v) \<longrightarrow> r = Still)"
proof -
  have "\<forall>d. \<exists>c. d \<in> set get_all_cardinals \<longrightarrow> neighbour_cost m ship_position cost_map d = Inr c"
    using assms(1,2,4) neighbour_cost_present [of m ship_position _ cost_map] by blast
  then obtain f where
    f: "\<forall>d. d \<in> set get_all_cardinals \<longrightarrow> neighbour_cost m ship_position cost_map d = Inr (f d)"
    by (rule choice [THEN exE])
  then have all: "\<forall>d\<in>set get_all_cardinals. neighbour_cost m ship_position cost_map d = Inr (f d)"
    by blast
  from navigate_back_loop_first_least [OF all, of c0 Still] obtain r where
    r: "navigate_back_loop m ship_position cost_map get_all_cardinals (c0, Still) = Inr r"
    and alt: "(r = Still \<and> (\<forall>d\<in>set get_all_cardinals. c0 \<le> f d))
      \<or> (\<exists>pre post. get_all_cardinals = pre @ r # post \<and> f r < c0
            \<and> (\<forall>d\<in>set pre. f r < f d) \<and> (\<forall>d\<in>set post. f r \<le> f d))"
    by blast
  have nb: "navigate_back m ship_position cost_map = Inr r"
    using assms(3) r by (simp add: navigate_back_def dict_get_def)
  have nonneg: "0 \<le> f d" if "\<forall>v\<in>snd ` set cost_map. 0 \<le> v"
    and "d \<in> set get_all_cardinals" for d
  proof -
    from all that(2) have "neighbour_cost m ship_position cost_map d = Inr (f d)" by blast
    then obtain n where "map_of cost_map n = Some (f d)"
      by (auto simp: neighbour_cost_def dict_get_def split: sum.splits option.splits)
    then have "(n, f d) \<in> set cost_map" by (rule map_of_SomeD)
    then have "f d \<in> snd ` set cost_map" by force
    with that(1) show ?thesis by blast
  qed
  have still_not_card: "Still \<notin> set get_all_cardinals" by (simp add: get_all_cardinals_def)
  from alt show ?thesis
  proof
    assume a: "r = Still \<and> (\<forall>d\<in>set get_all_cardinals. c0 \<le> f d)"
    with nb all show ?thesis by (intro exI [of _ f] exI [of _ r]) simp
  next
    assume "\<exists>pre post. get_all_cardinals = pre @ r # post \<and> f r < c0
            \<and> (\<forall>d\<in>set pre. f r < f d) \<and> (\<forall>d\<in>set post. f r \<le> f d)"
    then obtain pre post where b: "get_all_cardinals = pre @ r # post" "f r < c0"
      "\<forall>d\<in>set pre. f r < f d" "\<forall>d\<in>set post. f r \<le> f d" by blast
    from b(1) have mem: "r \<in> set get_all_cardinals" by (metis in_set_conv_decomp)
    with still_not_card have ns: "r \<noteq> Still" by auto
    from mem b(2) have nall: "\<not> (\<forall>d\<in>set get_all_cardinals. c0 \<le> f d)"
      by (auto intro!: bexI [of _ r] simp: not_le)
    have nz: "\<not> (c0 = 0 \<and> (\<forall>v\<in>snd ` set cost_map. 0 \<le> v))"
    proof
      assume z: "c0 = 0 \<and> (\<forall>v\<in>snd ` set cost_map. 0 \<le> v)"
      then have "0 \<le> f r" using nonneg [of r] mem by blast
      with b(2) z show False by simp
    qed
    have ex: "\<exists>pre post. get_all_cardinals = pre @ r # post
             \<and> (\<forall>d\<in>set pre. f r < f d) \<and> (\<forall>d\<in>set post. f r \<le> f d)"
      using b by blast
    show ?thesis
      using nb all mem b(2) ns nall nz ex by (intro exI [of _ f] exI [of _ r]) blast
  qed
qed

text \<open>The theorem of C7 on the 3 by 3 map with the ship at (1,1) and the neighbours at
  costs 50, 0, 0 and 55: with the ship at cost 60 the first of the two neighbours of cost
  0, the southern one, is chosen; with the ship at cost 0 it stays.\<close>

theorem navigate_back_first_least_witness:
  "navigate_back (uniform_map 3 3 0) (Position 1 1)
     [(Position 1 1, 60 :: rat), (Position 1 0, 50), (Position 1 2, 0), (Position 2 1, 0),
      (Position 0 1, 55)] = Inr South
   \<and> navigate_back (uniform_map 3 3 0) (Position 1 1)
     [(Position 1 1, 0 :: rat), (Position 1 0, 50), (Position 1 2, 0), (Position 2 1, 0),
      (Position 0 1, 55)] = Inr Still"
  using navigate_back_first_least [of "uniform_map 3 3 0"
      "[(Position 1 1, 60 :: rat), (Position 1 0, 50), (Position 1 2, 0), (Position 2 1, 0),
        (Position 0 1, 55)]" "Position 1 1" 60]
    navigate_back_first_least [of "uniform_map 3 3 0"
      "[(Position 1 1, 0 :: rat), (Position 1 0, 50), (Position 1 2, 0), (Position 2 1, 0),
        (Position 0 1, 55)]" "Position 1 1" 0]
  by (simp add: uniform_map_def generate_def get_all_cardinals_def neighbour_cost_def
      normalize_def directional_offset_def pos_add_def dict_get_def navigate_back_def)

subsection \<open>The potential field returns\<close>

lemma push_neighbours_wf:
  assumes "wf_map m"
  shows "push_neighbours m d ns q =
     Inr (q @ map (\<lambda>n. (d, Position (pos_x n mod width m) (pos_y n mod height m))) ns)"
proof (induction ns arbitrary: q)
  case Nil
  then show ?case by simp
next
  case (Cons n ns)
  then show ?case by (simp add: normalize_wf [OF assms] heappush_def)
qed

lemma potential_step_total:
  assumes "wf_map m" and "q \<noteq> []"
  shows "\<exists>st. potential_step m pos_lt ident (q, seen, p) = Inr st"
proof -
  from heappop_nonempty [OF assms(2), of "tuple_lt pos_lt"] obtain e where
    "heappop (tuple_lt pos_lt) q = Inr (e, remove1 e q)" by blast
  then obtain d pos where
    pop: "heappop (tuple_lt pos_lt) q = Inr ((d, pos), remove1 (d, pos) q)" by (cases e) auto
  show ?thesis
    by (simp add: potential_step_pop [OF pop] get_cell_wf [OF assms(1)]
        push_neighbours_wf [OF assms(1)])
qed

lemma potential_loop_total:
  assumes "wf_map m"
  shows "\<exists>v. potential_loop m pos_lt ident st = Inr v"
  using assms
proof (induction m pos_lt ident st rule: potential_loop.induct)
  case (1 m pos_lt ident q seen potential_sum)
  note wf = "1.prems"
  show ?case
  proof (cases "q = []")
    case True
    then show ?thesis by simp
  next
    case False
    from potential_step_total [OF wf False, of pos_lt ident seen potential_sum] obtain st where
      st: "potential_step m pos_lt ident (q, seen, potential_sum) = Inr st" by blast
    from "1.IH" [OF False st wf] obtain v where "potential_loop m pos_lt ident st = Inr v" by blast
    with False st show ?thesis by simp
  qed
qed

text \<open>
  Claim C10. On a well-formed map (extents at least 1, the cell array of that shape), for
  every source coordinate and every order of positions, \<^verbatim>\<open>_calculate_potential_cell\<close>
  returns a potential: the loop ends, without a cap on the distance, and raises nothing.
  The loop ends on every input at all, as the termination proof of \<open>potential_loop\<close> shows:
  each iteration either discards an entry of the frontier or finalises a coordinate not
  seen before, and the coordinates pushed are normalised ones, of which there are
  finitely many.
\<close>

theorem calculate_potential_cell_terminates:
  assumes "wf_map m"
  shows "\<exists>v. calculate_potential_cell m pos_lt source dropoffs ident = Inr v"
  unfolding calculate_potential_cell_def using assms by (rule potential_loop_total)

text \<open>The theorem of C10 on the 1 by 1 map holding 7: the source contributes 7 * 2 * 2 and
  the four entries pushed for its neighbours, all the source again, are discarded.\<close>

theorem calculate_potential_cell_terminates_witness:
  "wf_map (uniform_map 1 1 7)
   \<and> calculate_potential_cell (uniform_map 1 1 7) lex_lt (Position 0 0) [] 0 = Inr 28"
  using calculate_potential_cell_terminates [of "uniform_map 1 1 7" lex_lt "Position 0 0" "[]" 0]
  by (simp add: wf_map_def uniform_map_def generate_def generate_row_def MapCell_def
      calculate_potential_cell_def potential_step_def heappush_def heappop_def get_cell_def
      normalize_def py_index_def get_surrounding_cardinals_def get_all_cardinals_def
      directional_offset_def pos_add_def Let_def)

subsection \<open>Expansion at occupied cells\<close>

text \<open>
  Claim C1 says that the four neighbours of a finalised coordinate are pushed also when a
  ship is on its cell. In \<^verbatim>\<open>_calculate_potential_cell\<close> the loop that pushes them is inside
  the branch \<^verbatim>\<open>if self[position].ship is None\<close>. On the 3 by 1 map with a ship on (0,0)
  and 5 on every cell, finalising (0,0) leaves the frontier empty, and the potential of
  (0,0) is 0 although the two other cells are free and hold 5.
\<close>

theorem potential_step_occupied_counterexample:
  "potential_step
     \<lparr>width = 3, height = 1,
      cells = [[mark_unsafe (MapCell (Position 0 0) 5) 1, MapCell (Position 1 0) 5,
                MapCell (Position 2 0) 5]]\<rparr>
     lex_lt 0 ([(0, Position 0 0)], [], 0)
   = Inr ([], [(Position 0 0, 0)], 0)
   \<and> calculate_potential_cell
     \<lparr>width = 3, height = 1,
      cells = [[mark_unsafe (MapCell (Position 0 0) 5) 1, MapCell (Position 1 0) 5,
                MapCell (Position 2 0) 5]]\<rparr>
     lex_lt (Position 0 0) [] 0
   = Inr 0"
  by (simp add: calculate_potential_cell_def potential_step_def heappush_def heappop_def
      get_cell_def normalize_def py_index_def mark_unsafe_def MapCell_def Let_def)

text \<open>
  Claim C1, as the code has it. On a well-formed map, when the entry popped from the
  frontier is a coordinate not finalised before, the coordinate is recorded with its
  distance. If a ship is on its cell, the potential is unchanged and nothing is pushed:
  the frontier is what the pop left. If no ship is on it, the contribution of the cell is
  added and its four normalised cardinal neighbours are pushed at the distance plus 1.
\<close>

theorem potential_step_finalizes:
  assumes "wf_map m"
    and "heappop (tuple_lt pos_lt) q = Inr ((d, pos), q1)"
    and "map_of seen pos = None"
    and "get_cell m pos = Inr c"
  shows "potential_step m pos_lt ident (q, seen, p) =
     Inr (if is_occupied c then (q1, AList.update pos d seen, p)
          else (q1 @ map (\<lambda>n. (d + 1, Position (pos_x n mod width m) (pos_y n mod height m)))
                       (get_surrounding_cardinals pos),
                AList.update pos d seen,
                p + (if cell_structure c = Some ident
                     then (- 1000) * ((width m + height m) - d)
                     else halite_amount c * ((width m + height m) - d)
                            * ((width m + height m) - d))))"
  by (simp add: potential_step_pop [OF assms(2)] assms(3,4) push_neighbours_wf [OF assms(1)]
      is_occupied_def)

text \<open>The theorem of C1 on the same map at the free cell (1,0): it contributes 5 * 4 * 4
  and its four neighbours are pushed at distance 1.\<close>

theorem potential_step_finalizes_witness:
  "wf_map \<lparr>width = 3, height = 1,
      cells = [[mark_unsafe (MapCell (Position 0 0) 5) 1, MapCell (Position 1 0) 5,
                MapCell (Position 2 0) 5]]\<rparr>
   \<and> heappop (tuple_lt lex_lt) [(0, Position 1 0)] = Inr ((0, Position 1 0), [])
   \<and> get_cell \<lparr>width = 3, height = 1,
      cells = [[mark_unsafe (MapCell (Position 0 0) 5) 1, MapCell (Position 1 0) 5,
                MapCell (Position 2 0) 5]]\<rparr> (Position 1 0) = Inr (MapCell (Position 1 0) 5)
   \<and> potential_step
     \<lparr>width = 3, height = 1,
      cells = [[mark_unsafe (MapCell (Position 0 0) 5) 1, MapCell (Position 1 0) 5,
                MapCell (Position 2 0) 5]]\<rparr>
     lex_lt 0 ([(0, Position 1 0)], [], 0)
   = Inr ([(1, Position 1 0), (1, Position 1 0), (1, Position 2 0), (1, Position 0 0)],
          [(Position 1 0, 0)], 80)"
  using potential_step_finalizes [of
      "\<lparr>width = 3, height = 1,
      cells = [[mark_unsafe (MapCell (Position 0 0) 5) 1, MapCell (Position 1 0) 5,
                MapCell (Position 2 0) 5]]\<rparr>"
      lex_lt "[(0, Position 1 0)]" 0 "Position 1 0" "[]" "[]" "MapCell (Position 1 0) 5" 0 0]
  by (simp add: wf_map_def heappop_def get_cell_def normalize_def py_index_def is_occupied_def
      MapCell_def get_surrounding_cardinals_def get_all_cardinals_def directional_offset_def
      pos_add_def Let_def)

subsection \<open>Choosing a direction by potential\<close>

lemma finding_halite_loop_step:
  "finding_halite_loop m pos_lt p ident (d # rest) (hi, mv) =
     (case candidate_potential m pos_lt p ident d of
        Inl e \<Rightarrow> Inl e
      | Inr v \<Rightarrow> if v > hi then finding_halite_loop m pos_lt p ident rest (v, d)
                 else finding_halite_loop m pos_lt p ident rest (hi, mv))"
  by (simp add: candidate_potential_def split: sum.splits)

lemma finding_halite_loop_result:
  assumes "\<forall>d\<in>set ds. candidate_potential m pos_lt p ident d = Inr (f d)"
  shows "\<exists>r. finding_halite_loop m pos_lt p ident ds (hi, mv) = Inr r \<and>
     ((r = mv \<and> (\<forall>d\<in>set ds. f d \<le> hi))
      \<or> (\<exists>pre post. ds = pre @ r # post \<and> hi < f r
            \<and> (\<forall>d\<in>set pre. f d < f r) \<and> (\<forall>d\<in>set post. f d \<le> f r)))"
  using assms
proof (induction ds arbitrary: hi mv)
  case Nil
  then show ?case by simp
next
  case (Cons d rest)
  from Cons.prems have fd: "candidate_potential m pos_lt p ident d = Inr (f d)" by simp
  from Cons.prems have rest: "\<forall>d\<in>set rest. candidate_potential m pos_lt p ident d = Inr (f d)"
    by simp
  show ?case
  proof (cases "f d > hi")
    case True
    from Cons.IH [OF rest, of "f d" d] obtain r where
      r: "finding_halite_loop m pos_lt p ident rest (f d, d) = Inr r"
      and alt: "(r = d \<and> (\<forall>x\<in>set rest. f x \<le> f d))
        \<or> (\<exists>pre post. rest = pre @ r # post \<and> f d < f r
            \<and> (\<forall>x\<in>set pre. f x < f r) \<and> (\<forall>x\<in>set post. f x \<le> f r))"
      by blast
    have step: "finding_halite_loop m pos_lt p ident (d # rest) (hi, mv) = Inr r"
      using fd True r by (simp only: finding_halite_loop_step) simp
    from alt show ?thesis
    proof
      assume "r = d \<and> (\<forall>x\<in>set rest. f x \<le> f d)"
      then have "d # rest = [] @ r # rest \<and> hi < f r
            \<and> (\<forall>x\<in>set []. f x < f r) \<and> (\<forall>x\<in>set rest. f x \<le> f r)"
        using True by simp
      with step show ?thesis by blast
    next
      assume "\<exists>pre post. rest = pre @ r # post \<and> f d < f r
            \<and> (\<forall>x\<in>set pre. f x < f r) \<and> (\<forall>x\<in>set post. f x \<le> f r)"
      then obtain pre post where "rest = pre @ r # post" "f d < f r"
        "\<forall>x\<in>set pre. f x < f r" "\<forall>x\<in>set post. f x \<le> f r" by blast
      then have "d # rest = (d # pre) @ r # post \<and> hi < f r
            \<and> (\<forall>x\<in>set (d # pre). f x < f r) \<and> (\<forall>x\<in>set post. f x \<le> f r)"
        using True by simp
      with step show ?thesis by blast
    qed
  next
    case False
    from Cons.IH [OF rest, of hi mv] obtain r where
      r: "finding_halite_loop m pos_lt p ident rest (hi, mv) = Inr r"
      and alt: "(r = mv \<and> (\<forall>x\<in>set rest. f x \<le> hi))
        \<or> (\<exists>pre post. rest = pre @ r # post \<and> hi < f r
            \<and> (\<forall>x\<in>set pre. f x < f r) \<and> (\<forall>x\<in>set post. f x \<le> f r))"
      by blast
    have step: "finding_halite_loop m pos_lt p ident (d # rest) (hi, mv) = Inr r"
      using fd False r by (simp only: finding_halite_loop_step) simp
    from alt show ?thesis
    proof
      assume "r = mv \<and> (\<forall>x\<in>set rest. f x \<le> hi)"
      with False step show ?thesis by auto
    next
      assume "\<exists>pre post. rest = pre @ r # post \<and> hi < f r
            \<and> (\<forall>x\<in>set pre. f x < f r) \<and> (\<forall>x\<in>set post. f x \<le> f r)"
      then obtain pre post where "rest = pre @ r # post" "hi < f r"
        "\<forall>x\<in>set pre. f x < f r" "\<forall>x\<in>set post. f x \<le> f r" by blast
      then have "d # rest = (d # pre) @ r # post \<and> hi < f r
            \<and> (\<forall>x\<in>set (d # pre). f x < f r) \<and> (\<forall>x\<in>set post. f x \<le> f r)"
        using False by simp
      with step show ?thesis by blast
    qed
  qed
qed

lemma candidate_potential_wf:
  assumes "wf_map m"
  shows "\<exists>v. candidate_potential m pos_lt p ident d = Inr v
     \<and> (\<forall>c. get_cell m (directional_offset p d) = Inr c \<longrightarrow> is_occupied c \<longrightarrow> v = 0)"
proof -
  let ?n = "Position (pos_x (directional_offset p d) mod width m)
                     (pos_y (directional_offset p d) mod height m)"
  have same: "get_cell m ?n = get_cell m (directional_offset p d)"
    by (simp add: get_cell_wf [OF assms])
  obtain c where c: "get_cell m (directional_offset p d) = Inr c"
    by (simp add: get_cell_wf [OF assms])
  show ?thesis
  proof (cases "is_occupied c")
    case True
    then show ?thesis
      by (simp add: candidate_potential_def normalize_wf [OF assms] same c)
  next
    case False
    from potential_loop_total [OF assms] obtain v where
      "calculate_potential_cell m pos_lt ?n [] ident = Inr v"
      unfolding calculate_potential_cell_def by blast
    with False show ?thesis
      by (simp add: candidate_potential_def normalize_wf [OF assms] same c)
  qed
qed

text \<open>
  Claim C8. On a well-formed map \<^verbatim>\<open>finding_halite\<close> returns a direction \<open>r\<close>, and each of
  the four cardinal directions, taken in the order North, South, East, West, has a
  potential \<open>f d\<close>: 0 when the neighbour in that direction is occupied, the value of the
  field at the neighbour otherwise. \<open>r\<close> is \<open>Still\<close> exactly when no potential is strictly
  positive. Otherwise \<open>r\<close> is a cardinal direction whose potential is strictly higher than
  that of every direction before it in the order and at least that of every direction
  after it, so of equal potentials the earlier is kept. When all four neighbours are
  occupied the result is \<open>Still\<close>.
\<close>

theorem finding_halite_strictly_highest:
  assumes "wf_map m"
  shows "\<exists>f r. finding_halite m pos_lt p ident = Inr r
     \<and> (\<forall>d\<in>set get_all_cardinals. candidate_potential m pos_lt p ident d = Inr (f d))
     \<and> (\<forall>d\<in>set get_all_cardinals. \<forall>c.
           get_cell m (directional_offset p d) = Inr c \<longrightarrow> is_occupied c \<longrightarrow> f d = 0)
     \<and> (r = Still \<longleftrightarrow> (\<forall>d\<in>set get_all_cardinals. f d \<le> 0))
     \<and> (r \<noteq> Still \<longrightarrow>
          (\<exists>pre post. get_all_cardinals = pre @ r # post
             \<and> (\<forall>d\<in>set pre. f d < f r) \<and> (\<forall>d\<in>set post. f d \<le> f r)))
     \<and> ((\<forall>d\<in>set get_all_cardinals. \<forall>c.
            get_cell m (directional_offset p d) = Inr c \<longrightarrow> is_occupied c) \<longrightarrow> r = Still)"
proof -
  from candidate_potential_wf [OF assms, of pos_lt p ident]
  have "\<forall>d. \<exists>v. candidate_potential m pos_lt p ident d = Inr v
     \<and> (\<forall>c. get_cell m (directional_offset p d) = Inr c \<longrightarrow> is_occupied c \<longrightarrow> v = 0)"
    by blast
  then obtain f where f: "\<forall>d. candidate_potential m pos_lt p ident d = Inr (f d)
     \<and> (\<forall>c. get_cell m (directional_offset p d) = Inr c \<longrightarrow> is_occupied c \<longrightarrow> f d = 0)"
    by (rule choice [THEN exE])
  then have all: "\<forall>d\<in>set get_all_cardinals. candidate_potential m pos_lt p ident d = Inr (f d)"
    and occ: "\<forall>d\<in>set get_all_cardinals. \<forall>c.
           get_cell m (directional_offset p d) = Inr c \<longrightarrow> is_occupied c \<longrightarrow> f d = 0"
    by simp_all
  obtain c0 where c0: "\<And>d. get_cell m (directional_offset p d) = Inr (c0 d)"
    by (simp add: get_cell_wf [OF assms])
  from finding_halite_loop_result [OF all, of 0 Still] obtain r where
    r: "finding_halite m pos_lt p ident = Inr r"
    and alt: "(r = Still \<and> (\<forall>d\<in>set get_all_cardinals. f d \<le> 0))
      \<or> (\<exists>pre post. get_all_cardinals = pre @ r # post \<and> 0 < f r
            \<and> (\<forall>d\<in>set pre. f d < f r) \<and> (\<forall>d\<in>set post. f d \<le> f r))"
    unfolding finding_halite_def by blast
  have still_not_card: "Still \<notin> set get_all_cardinals" by (simp add: get_all_cardinals_def)
  from alt show ?thesis
  proof
    assume a: "r = Still \<and> (\<forall>d\<in>set get_all_cardinals. f d \<le> 0)"
    with r all occ show ?thesis by (intro exI [of _ f] exI [of _ r]) simp
  next
    assume "\<exists>pre post. get_all_cardinals = pre @ r # post \<and> 0 < f r
            \<and> (\<forall>d\<in>set pre. f d < f r) \<and> (\<forall>d\<in>set post. f d \<le> f r)"
    then obtain pre post where b: "get_all_cardinals = pre @ r # post" "0 < f r"
      "\<forall>d\<in>set pre. f d < f r" "\<forall>d\<in>set post. f d \<le> f r" by blast
    from b(1) have mem: "r \<in> set get_all_cardinals" by (metis in_set_conv_decomp)
    with still_not_card have ns: "r \<noteq> Still" by auto
    from mem b(2) have npos: "\<not> (\<forall>d\<in>set get_all_cardinals. f d \<le> 0)"
      by (auto intro!: bexI [of _ r])
    have nocc: "\<not> (\<forall>d\<in>set get_all_cardinals. \<forall>c.
            get_cell m (directional_offset p d) = Inr c \<longrightarrow> is_occupied c)"
    proof
      assume "\<forall>d\<in>set get_all_cardinals. \<forall>c.
            get_cell m (directional_offset p d) = Inr c \<longrightarrow> is_occupied c"
      with mem c0 [of r] have "is_occupied (c0 r)" by blast
      with occ mem c0 [of r] have "f r = 0" by blast
      with b(2) show False by simp
    qed
    have ex: "\<exists>pre post. get_all_cardinals = pre @ r # post
             \<and> (\<forall>d\<in>set pre. f d < f r) \<and> (\<forall>d\<in>set post. f d \<le> f r)"
      using b by blast
    show ?thesis
      using r all occ ns npos nocc ex by (intro exI [of _ f] exI [of _ r]) blast
  qed
qed

text \<open>The theorem of C8 on two 1 by 1 maps holding 7, where every neighbour of (0,0) is
  (0,0) itself: without a ship the four potentials are 28 and the first direction is
  returned; with a ship on the cell the result is \<open>Still\<close>.\<close>

theorem finding_halite_strictly_highest_witness:
  "wf_map (uniform_map 1 1 7)
   \<and> finding_halite (uniform_map 1 1 7) lex_lt (Position 0 0) 0 = Inr North
   \<and> wf_map \<lparr>width = 1, height = 1, cells = [[mark_unsafe (MapCell (Position 0 0) 7) 1]]\<rparr>
   \<and> finding_halite \<lparr>width = 1, height = 1, cells = [[mark_unsafe (MapCell (Position 0 0) 7) 1]]\<rparr>
        lex_lt (Position 0 0) 0 = Inr Still"
  using finding_halite_strictly_highest [of "uniform_map 1 1 7" lex_lt "Position 0 0" 0]
    finding_halite_strictly_highest [of
      "\<lparr>width = 1, height = 1, cells = [[mark_unsafe (MapCell (Position 0 0) 7) 1]]\<rparr>"
      lex_lt "Position 0 0" 0]
  by (simp add: wf_map_def uniform_map_def generate_def generate_row_def MapCell_def
      mark_unsafe_def is_occupied_def finding_halite_def
      calculate_potential_cell_def potential_step_def heappush_def heappop_def get_cell_def
      normalize_def py_index_def get_surrounding_cardinals_def get_all_cardinals_def
      directional_offset_def pos_add_def Let_def)

subsection \<open>The cost map covers the grid\<close>

lemma normalize_wrapped: "wf_map m \<Longrightarrow> normalize m p = Inr (wrapped m p)"
  by (simp add: normalize_wf wrapped_def)

lemma wrapped_in_grid: "wf_map m \<Longrightarrow> in_grid m (wrapped m p)"
  by (simp add: wf_map_def in_grid_def wrapped_def)

lemma relax_neighbours_wf:
  assumes "wf_map m"
  shows "\<exists>r. relax_neighbours m cost ns (q, a) = Inr r"
proof (induction ns arbitrary: q a)
  case Nil
  then show ?case by simp
next
  case (Cons n ns)
  then show ?case by (simp add: normalize_wf [OF assms] get_cell_wf [OF assms] Let_def)
qed

lemma dijkstra_step_total:
  assumes "wf_map m" and "q \<noteq> []"
  shows "\<exists>st. dijkstra_step m pos_lt (q, cm, a) = Inr st"
proof -
  from heappop_nonempty [OF assms(2), of "tuple_lt pos_lt"] obtain e where
    "heappop (tuple_lt pos_lt) q = Inr (e, remove1 e q)" by blast
  then obtain d pos where
    pop: "heappop (tuple_lt pos_lt) q = Inr ((d, pos), remove1 (d, pos) q)" by (cases e) auto
  obtain c where c: "get_cell m pos = Inr c" by (simp add: get_cell_wf [OF assms(1)])
  from relax_neighbours_wf [OF assms(1)] obtain r where
    "relax_neighbours m d (get_surrounding_cardinals pos) (remove1 (d, pos) q, a + halite_amount c)
       = Inr r" by blast
  then show ?thesis
    by (cases r) (simp add: dijkstra_step_pop [OF pop] c)
qed

lemma entries_wrapped:
  assumes "wf_map m"
  shows "map (normalize m) ns = map (Inr \<circ> snd) es \<Longrightarrow> map snd es = map (wrapped m) ns"
proof (induction ns arbitrary: es)
  case Nil
  then show ?case by simp
next
  case (Cons n ns)
  then show ?case by (cases es) (auto simp: normalize_wrapped [OF assms])
qed

lemma snd_set_remove1_sub: "snd ` set (remove1 e q) \<subseteq> snd ` set q"
  using set_remove1_subset [of e q] by auto

lemma snd_set_remove1_sup: "snd ` set q \<subseteq> insert (snd e) (snd ` set (remove1 e q))"
proof
  fix p assume "p \<in> snd ` set q"
  then obtain x where x: "x \<in> set q" "p = snd x" by auto
  show "p \<in> insert (snd e) (snd ` set (remove1 e q))"
  proof (cases "x = e")
    case True
    with x show ?thesis by simp
  next
    case False
    with x have "x \<in> set (remove1 e q)" by simp
    with x show ?thesis by auto
  qed
qed

lemma cover_skip:
  "k \<in> K \<Longrightarrow> Q' \<subseteq> Q \<Longrightarrow> Q \<subseteq> insert k Q' \<Longrightarrow> K \<union> Q = K \<union> Q'"
  by blast

lemma cover_old:
  "K' = insert k K \<Longrightarrow> Q' = R \<union> E \<Longrightarrow> Q \<subseteq> insert k R \<Longrightarrow> K \<union> Q \<subseteq> K' \<union> Q'"
  by blast

lemma cover_new:
  "K' = insert k K \<Longrightarrow> Q' = R \<union> E \<Longrightarrow> R \<subseteq> Q \<Longrightarrow> k \<in> Q \<Longrightarrow> K' \<union> Q' \<subseteq> K \<union> Q \<union> E"
  by blast

lemma key_present: "map_of cm pos \<noteq> None \<Longrightarrow> pos \<in> fst ` set cm"
  by (simp add: map_of_eq_None_iff)

lemma frontier_inv_step:
  assumes wf: "wf_map m" and inv: "frontier_inv m base q cm"
    and step: "dijkstra_step m pos_lt (q, cm, a) = Inr (q', cm', a')"
  shows "frontier_inv m base q' cm'"
  using step
proof (cases rule: dijkstra_step_cases)
  case (skip d pos)
  from skip(2) have k: "pos \<in> fst ` set cm" by (rule key_present)
  have sub: "snd ` set q' \<subseteq> snd ` set q"
    unfolding skip(3) by (rule snd_set_remove1_sub)
  have sup: "snd ` set q \<subseteq> insert pos (snd ` set q')"
    unfolding skip(3) using snd_set_remove1_sup [of q "(d, pos)"] by simp
  have cov: "fst ` set cm \<union> snd ` set q = fst ` set cm \<union> snd ` set q'"
    using k sub sup by (rule cover_skip)
  from inv show ?thesis
    unfolding frontier_inv_def skip(4) cov .
next
  case (expand d pos c es)
  have keys: "fst ` set cm' = insert pos (fst ` set cm)"
    unfolding expand(7) by (simp add: dom_update)
  have "map snd es = map (wrapped m) (get_surrounding_cardinals pos)"
    using wf expand(5) by (rule entries_wrapped)
  then have "set (map snd es) = set (map (wrapped m) (get_surrounding_cardinals pos))"
    by (rule arg_cong)
  then have es: "snd ` set es = wrapped m ` set (get_surrounding_cardinals pos)"
    by (simp only: set_map)
  have q': "snd ` set q' = snd ` set (remove1 (d, pos) q) \<union> snd ` set es"
    unfolding expand(6) by (simp only: set_append image_Un)
  have sub: "snd ` set (remove1 (d, pos) q) \<subseteq> snd ` set q"
    by (rule snd_set_remove1_sub)
  have sup: "snd ` set q \<subseteq> insert pos (snd ` set (remove1 (d, pos) q))"
    using snd_set_remove1_sup [of q "(d, pos)"] by simp
  have inq: "pos \<in> snd ` set q" using expand(1) by force
  have old: "fst ` set cm \<union> snd ` set q \<subseteq> fst ` set cm' \<union> snd ` set q'"
    using keys q' sup by (rule cover_old)
  have new: "fst ` set cm' \<union> snd ` set q' \<subseteq> fst ` set cm \<union> snd ` set q \<union> snd ` set es"
    using keys q' sub inq by (rule cover_new)
  from inv have b: "base \<in> fst ` set cm \<union> snd ` set q"
    and cl: "\<forall>p\<in>fst ` set cm. \<forall>d\<in>set get_all_cardinals.
            wrapped m (directional_offset p d) \<in> fst ` set cm \<union> snd ` set q"
    and gr: "fst ` set cm \<union> snd ` set q \<subseteq> Collect (in_grid m)"
    and di: "distinct (map fst cm)"
    unfolding frontier_inv_def by blast+
  have b': "base \<in> fst ` set cm' \<union> snd ` set q'" using b old by (rule subsetD [rotated])
  have cl': "\<forall>p\<in>fst ` set cm'. \<forall>d\<in>set get_all_cardinals.
            wrapped m (directional_offset p d) \<in> fst ` set cm' \<union> snd ` set q'"
  proof (intro ballI)
    fix p dir assume p: "p \<in> fst ` set cm'" and dir: "dir \<in> set get_all_cardinals"
    show "wrapped m (directional_offset p dir) \<in> fst ` set cm' \<union> snd ` set q'"
    proof (cases "p = pos")
      case True
      have "directional_offset pos dir \<in> set (get_surrounding_cardinals pos)"
        unfolding get_surrounding_cardinals_def using dir by simp
      then have "wrapped m (directional_offset pos dir) \<in> snd ` set es"
        unfolding es by (rule imageI)
      then have "wrapped m (directional_offset pos dir) \<in> snd ` set q'"
        unfolding q' by (rule UnI2)
      then show ?thesis unfolding True by (rule UnI2)
    next
      case False
      from p have "p \<in> insert pos (fst ` set cm)" unfolding keys .
      with False have pk: "p \<in> fst ` set cm" by simp
      have "wrapped m (directional_offset p dir) \<in> fst ` set cm \<union> snd ` set q"
        using cl [rule_format, OF pk dir] .
      then show ?thesis using old by (rule subsetD [rotated])
    qed
  qed
  have "wrapped m ` set (get_surrounding_cardinals pos) \<subseteq> Collect (in_grid m)"
    using wrapped_in_grid [OF wf] by (simp add: image_subset_iff)
  then have "snd ` set es \<subseteq> Collect (in_grid m)" unfolding es .
  with gr have "fst ` set cm \<union> snd ` set q \<union> snd ` set es \<subseteq> Collect (in_grid m)"
    by (rule Un_least)
  with new have gr': "fst ` set cm' \<union> snd ` set q' \<subseteq> Collect (in_grid m)"
    by (rule subset_trans)
  have di': "distinct (map fst cm')" unfolding expand(7) using di by (rule distinct_update)
  show ?thesis unfolding frontier_inv_def using b' cl' gr' di' by (intro conjI)
qed

lemma dijkstra_loop_inv:
  assumes "wf_map m" and "frontier_inv m base (fst st) (fst (snd st))"
  shows "\<exists>cm a. dijkstra_loop m pos_lt st = Inr (cm, a) \<and> frontier_inv m base ([] :: (rat \<times> position) list) cm"
  using assms
proof (induction m pos_lt st rule: dijkstra_loop.induct)
  case (1 m pos_lt q cost_map avg_halite)
  note wf = "1.prems"(1)
  from "1.prems"(2) have inv: "frontier_inv m base q cost_map" by simp
  show ?case
  proof (cases "q = []")
    case True
    with inv show ?thesis by simp
  next
    case False
    from dijkstra_step_total [OF wf False, of pos_lt cost_map avg_halite] obtain st where
      st: "dijkstra_step m pos_lt (q, cost_map, avg_halite) = Inr st" by blast
    obtain q' cm' a' where st': "st = (q', cm', a')" by (cases st)
    from frontier_inv_step [OF wf inv st [unfolded st']]
    have "frontier_inv m base (fst st) (fst (snd st))" by (simp add: st')
    from "1.IH" [OF False st wf this] obtain cm a where
      "dijkstra_loop m pos_lt st = Inr (cm, a)" "frontier_inv m base ([] :: (rat \<times> position) list) cm"
      by blast
    with False st show ?thesis by simp
  qed
qed

lemma closed_keys_cover:
  assumes wf: "wf_map m" and base: "in_grid m base" and bK: "base \<in> K"
    and cl: "\<forall>p\<in>K. \<forall>d\<in>set get_all_cardinals. wrapped m (directional_offset p d) \<in> K"
    and p: "in_grid m p"
  shows "p \<in> K"
proof -
  from wf have w: "0 < width m" and h: "0 < height m" by (simp_all add: wf_map_def)
  have east: "Position ((x + 1) mod width m) (y mod height m) \<in> K" if "Position x y \<in> K" for x y
    using cl [rule_format, OF that, of East]
    by (simp add: get_all_cardinals_def wrapped_def directional_offset_def pos_add_def)
  have south: "Position (x mod width m) ((y + 1) mod height m) \<in> K" if "Position x y \<in> K" for x y
    using cl [rule_format, OF that, of South]
    by (simp add: get_all_cardinals_def wrapped_def directional_offset_def pos_add_def)
  obtain bx "by" where b: "base = Position bx by" by (cases base)
  obtain x y where xy: "p = Position x y" by (cases p)
  from base b have bxr: "bx mod width m = bx" and byr: "by mod height m = by"
    by (simp_all add: in_grid_def)
  from p xy have xr: "x mod width m = x" and yr: "y mod height m = y"
    by (simp_all add: in_grid_def)
  have row: "Position ((bx + int k) mod width m) by \<in> K" for k
  proof (induction k)
    case 0
    with bK b bxr show ?case by simp
  next
    case (Suc k)
    from east [OF Suc] have "Position (((bx + int k) mod width m + 1) mod width m) by \<in> K"
      by (simp add: byr)
    moreover have "((bx + int k) mod width m + 1) mod width m = (bx + int (Suc k)) mod width m"
    proof -
      have "((bx + int k) mod width m + 1) mod width m = ((bx + int k) + 1) mod width m"
        by (rule mod_add_left_eq)
      also have "(bx + int k) + 1 = bx + int (Suc k)" by simp
      finally show ?thesis .
    qed
    ultimately show ?case by simp
  qed
  have "(bx + int (nat ((x - bx) mod width m))) mod width m = x"
  proof -
    have "0 \<le> (x - bx) mod width m" using w by simp
    then have "(bx + int (nat ((x - bx) mod width m))) mod width m
        = (bx + (x - bx) mod width m) mod width m" by simp
    also have "\<dots> = (bx + (x - bx)) mod width m" by (simp add: mod_add_right_eq)
    also have "\<dots> = x" using xr by simp
    finally show ?thesis .
  qed
  with row [of "nat ((x - bx) mod width m)"] have start: "Position x by \<in> K" by simp
  have col: "Position x ((by + int k) mod height m) \<in> K" for k
  proof (induction k)
    case 0
    with start byr show ?case by simp
  next
    case (Suc k)
    from south [OF Suc] have "Position x (((by + int k) mod height m + 1) mod height m) \<in> K"
      by (simp add: xr)
    moreover have "((by + int k) mod height m + 1) mod height m = (by + int (Suc k)) mod height m"
    proof -
      have "((by + int k) mod height m + 1) mod height m = ((by + int k) + 1) mod height m"
        by (rule mod_add_left_eq)
      also have "(by + int k) + 1 = by + int (Suc k)" by simp
      finally show ?thesis .
    qed
    ultimately show ?case by simp
  qed
  have "(by + int (nat ((y - by) mod height m))) mod height m = y"
  proof -
    have "0 \<le> (y - by) mod height m" using h by simp
    then have "(by + int (nat ((y - by) mod height m))) mod height m
        = (by + (y - by) mod height m) mod height m" by simp
    also have "\<dots> = (by + (y - by)) mod height m" by (simp add: mod_add_right_eq)
    also have "\<dots> = y" using yr by simp
    finally show ?thesis .
  qed
  with col [of "nat ((y - by) mod height m)"] show ?thesis by (simp add: xy)
qed

text \<open>
  Claim C6. On a well-formed map (extents at least 1, the cell array of that shape) and for
  a base at a normalised coordinate, \<^verbatim>\<open>dijkstra_map\<close> returns, for every order of
  positions: the loop ends and raises nothing. The keys of the cost map returned are exactly
  the normalised coordinates of the grid, each recorded once, so that a read of the cost map
  at any coordinate of the grid finds an entry.
\<close>

theorem dijkstra_map_fully_populated:
  assumes "wf_map m" and "in_grid m base_position"
  shows "\<exists>cost_map avg_halite. dijkstra_map m pos_lt base_position = Inr (cost_map, avg_halite)
     \<and> fst ` set cost_map = {p. in_grid m p}
     \<and> distinct (map fst cost_map)
     \<and> (\<forall>p. in_grid m p \<longrightarrow> (\<exists>c. dict_get cost_map p = Inr c))"
proof -
  have init: "frontier_inv m base_position
      (fst (heappush [] (0 :: rat, base_position), [] :: (position \<times> rat) list, 0 :: int))
      (fst (snd (heappush [] (0 :: rat, base_position), [] :: (position \<times> rat) list, 0 :: int)))"
    using assms(2) by (simp add: frontier_inv_def heappush_def)
  from dijkstra_loop_inv [OF assms(1) init, of pos_lt] obtain cm a where
    loop: "dijkstra_loop m pos_lt (heappush [] (0, base_position), [], 0) = Inr (cm, a)"
    and inv: "frontier_inv m base_position ([] :: (rat \<times> position) list) cm" by blast
  from assms(1) have nz: "width m * height m \<noteq> 0" by (simp add: wf_map_def)
  have res: "dijkstra_map m pos_lt base_position
      = Inr (cm, of_int a / of_int (width m * height m))"
    using loop nz by (simp add: dijkstra_map_def)
  from inv have bK: "base_position \<in> fst ` set cm"
    and cl: "\<forall>p\<in>fst ` set cm. \<forall>d\<in>set get_all_cardinals.
               wrapped m (directional_offset p d) \<in> fst ` set cm"
    and gr: "fst ` set cm \<subseteq> Collect (in_grid m)"
    and di: "distinct (map fst cm)"
    by (simp_all add: frontier_inv_def)
  have cover: "p \<in> fst ` set cm" if "in_grid m p" for p
    using assms(1,2) bK cl that by (rule closed_keys_cover)
  have keys: "fst ` set cm = {p. in_grid m p}" using gr cover by blast
  have look: "\<exists>c. dict_get cm p = Inr c" if "in_grid m p" for p
  proof -
    from cover [OF that] obtain c where "map_of cm p = Some c"
      by (metis domD dom_map_of_conv_image_fst)
    then show ?thesis by (simp add: dict_get_def)
  qed
  from res keys di look show ?thesis by blast
qed

text \<open>The theorem of C6 on the 2 by 1 map holding 10 on both cells, with the base at
  (0,0): both coordinates are in the cost map, the base at cost 0 and its neighbour at
  cost 10/10 + 50.\<close>

theorem dijkstra_map_fully_populated_witness:
  "wf_map (uniform_map 2 1 10) \<and> in_grid (uniform_map 2 1 10) (Position 0 0)
   \<and> dijkstra_map (uniform_map 2 1 10) lex_lt (Position 0 0)
       = Inr ([(Position 0 0, 0), (Position 1 0, 51)], 50)"
  using dijkstra_map_fully_populated [of "uniform_map 2 1 10" "Position 0 0" lex_lt]
  by (simp add: wf_map_def in_grid_def uniform_map_def generate_def generate_row_def MapCell_def
      dijkstra_map_def dijkstra_step_def heappush_def heappop_def tuple_lt_def lex_lt_def
      get_cell_def normalize_def py_index_def get_surrounding_cardinals_def get_all_cardinals_def
      directional_offset_def pos_add_def Let_def eval_nat_numeral)

subsection \<open>Costs on a grid of equal amounts\<close>





























end
